theory Spec2Isabelle
  imports Main "HOL-Library.Word"
begin

unbundle bit_operations_syntax

section \<open>Data model of package merkle\<close>

text \<open>
  Byte slices are lists of 8-bit words. A nil slice and an empty slice are written to a
  hasher alike, so \<open>Hash\<close> is a plain byte list. \<open>Nonce\<close> keeps the distinction
  (\<open>None\<close> is the nil slice), because \<open>CreateLeaf\<close> compares its argument with nil.
\<close>

type_synonym bytes = "8 word list"

text \<open>
  The BLAKE3 digest of package \<open>lukechampine.com/blake3\<close> is not part of the repository:
  the unkeyed 32-byte hash is a parameter \<open>H\<close> of every operation that hashes. A hasher
  created by \<open>blake3.New(Blake3Size, nil)\<close>, written to several times and closed by
  \<open>Sum(nil)\<close>, yields \<open>H\<close> of the concatenated writes; \<open>blake3.Sum256\<close> is the same
  function on one buffer.
\<close>

type_synonym hashfn = "bytes \<Rightarrow> bytes"

text \<open>
  \<open>type Node struct\<close>: the children are pointers, \<open>None\<close> is the nil pointer.
\<close>

datatype node = Node
  (Hash: bytes)
  (Name: string)
  (Left: "node option")
  (Right: "node option")
  (Nonce: "bytes option")

text \<open>\<open>type InclusionProof struct\<close>; \<open>Nonce\<close> is copied from a node, so it may be nil.\<close>

record InclusionProof =
  LeafIndex :: "64 word"
  TreeSize :: "64 word"
  ProofNonce :: "bytes option"
  Proof :: "bytes list"

text \<open>
  The errors of the package are values made by \<open>errors.New\<close>, told apart by their
  message only. \<open>ReadFailure\<close> is an error of the \<open>io.Reader\<close>, \<open>RandFailure\<close> one of
  \<open>rand.Read\<close>; \<open>NilDereference\<close> is the run-time panic of reading a field through a
  nil \<open>*Node\<close>.
\<close>

datatype error =
    ReadFailure string
  | RandFailure string
  | LeafIndexImpossible        \<comment> \<open>"given leaf index is impossible"\<close>
  | NumberOfLeavesIncorrect    \<comment> \<open>"given number of leaves is incorrect"\<close>
  | InvalidLeafIndex           \<comment> \<open>"invalid leaf index"\<close>
  | SizeIndexMismatch          \<comment> \<open>"tree size and leaf index mismatch"\<close>
  | NilDereference

text \<open>The error kinds of the specification, and the kind each error of the code falls under.\<close>

datatype error_kind =
  IOFailure | RandomnessFailure | IndexOutOfRange | TreeSizeMismatch | ProofSizeMismatch | Panic

fun kind_of :: "error \<Rightarrow> error_kind" where
  "kind_of (ReadFailure s) = IOFailure"
| "kind_of (RandFailure s) = RandomnessFailure"
| "kind_of LeafIndexImpossible = IndexOutOfRange"
| "kind_of NumberOfLeavesIncorrect = TreeSizeMismatch"
| "kind_of InvalidLeafIndex = IndexOutOfRange"
| "kind_of SizeIndexMismatch = ProofSizeMismatch"
| "kind_of NilDereference = Panic"

section \<open>flp2\<close>

text \<open>\<open>func flp2(x uint64) uint64\<close>, statement by statement; \<open>x--\<close> wraps at zero.\<close>

definition flp2 :: "64 word \<Rightarrow> 64 word" where
  "flp2 x0 =
     (let x = x0 - 1;
          x = x OR (drop_bit 1 x);
          x = x OR (drop_bit 2 x);
          x = x OR (drop_bit 4 x);
          x = x OR (drop_bit 8 x);
          x = x OR (drop_bit 16 x);
          x = x OR (drop_bit 32 x)
      in x - (drop_bit 1 x))"

section \<open>Leaves\<close>

text \<open>
  An \<open>io.Reader\<close> is modelled by what \<open>io.Copy\<close> gets out of it: either a read error
  (\<open>Inl\<close>, with its message) or the whole content up to end of stream (\<open>Inr\<close>).
\<close>

type_synonym reader = "string + bytes"

fun slice_bytes :: "bytes option \<Rightarrow> bytes" where
  "slice_bytes None = []"
| "slice_bytes (Some bs) = bs"

definition HashLeaf :: "hashfn \<Rightarrow> reader \<Rightarrow> bytes option \<Rightarrow> error + bytes" where
  "HashLeaf H r nonce =
     (case r of
        Inl msg \<Rightarrow> Inl (ReadFailure msg)
      | Inr content \<Rightarrow> Inr (H ([0x00] @ slice_bytes nonce @ content)))"

text \<open>
  \<open>CreateLeaf\<close>: \<open>rnd\<close> is the outcome of \<open>rand.Read\<close> on a fresh buffer of \<open>NonceSize\<close>
  bytes, used only when the given nonce is nil.
\<close>

definition CreateLeaf ::
  "hashfn \<Rightarrow> string + bytes \<Rightarrow> string \<Rightarrow> reader \<Rightarrow> bytes option \<Rightarrow> error + node" where
  "CreateLeaf H rnd name r nonce =
     (case (case nonce of
              None \<Rightarrow> (case rnd of Inl msg \<Rightarrow> Inl (RandFailure msg) | Inr bs \<Rightarrow> Inr (Some bs))
            | Some bs \<Rightarrow> Inr (Some bs)) of
        Inl e \<Rightarrow> Inl e
      | Inr nonce' \<Rightarrow>
          (case HashLeaf H r nonce' of
             Inl e \<Rightarrow> Inl e
           | Inr hash \<Rightarrow> Inr (Node hash name None None nonce')))"

section \<open>CreateTree\<close>

text \<open>
  The slice holds pointers to leaf nodes; the model takes the nodes they point to.
  \<open>uint64(len(leaves))\<close> is \<open>of_nat (length leaves)\<close>. The recursion is on the two
  sub-slices \<open>leaves[:p2]\<close> and \<open>leaves[p2:]\<close>; a call that does not return is \<open>None\<close>.
  The length of a slice is below \<open>2 ^ 63\<close>; for such a length \<open>p2\<close> lies strictly
  between 0 and the length (\<open>CreateTree_node\<close> below), so both slice expressions are
  within bounds and \<open>take\<close> and \<open>drop\<close> are what they compute.
\<close>

partial_function (option) CreateTree :: "hashfn \<Rightarrow> node list \<Rightarrow> node option" where
  "CreateTree H leaves =
     (if length leaves = 0 then Some (Node (H []) [] None None None)
      else if length leaves = 1 then Some (leaves ! 0)
      else
        Option.bind (CreateTree H (take (unat (flp2 (of_nat (length leaves)))) leaves)) (\<lambda>left.
        Option.bind (CreateTree H (drop (unat (flp2 (of_nat (length leaves)))) leaves)) (\<lambda>right.
          Some (Node (H ([0x01] @ Hash left @ Hash right)) [] (Some left) (Some right) None))))"

declare CreateTree.simps [code]

section \<open>GetInclusionProof and GetLeaf\<close>

text \<open>
  \<open>root\<close> is a pointer: \<open>None\<close> is nil, and reading a field through it panics. The
  recursion follows child pointers, so the size of the tree under \<open>root\<close> decreases.
\<close>

function GetInclusionProof :: "node option \<Rightarrow> 64 word \<Rightarrow> 64 word \<Rightarrow> error + InclusionProof" where
  "GetInclusionProof root n m =
     (if m \<ge> n then Inl LeafIndexImpossible
      else if n = 1 then
        (case root of
           None \<Rightarrow> Inl NilDereference
         | Some rt \<Rightarrow> Inr \<lparr>LeafIndex = m, TreeSize = n, ProofNonce = Nonce rt, Proof = []\<rparr>)
      else
        (let k = flp2 n in
         if m < k then
           (case root of
              None \<Rightarrow> Inl NilDereference
            | Some rt \<Rightarrow>
                (case Right rt of
                   None \<Rightarrow> Inl NumberOfLeavesIncorrect
                 | Some right \<Rightarrow>
                     (case GetInclusionProof (Left rt) k m of
                        Inl err \<Rightarrow> Inl err
                      | Inr ip \<Rightarrow>
                          Inr \<lparr>LeafIndex = m, TreeSize = n, ProofNonce = ProofNonce ip,
                               Proof = Proof ip @ [Hash right]\<rparr>)))
         else
           (case root of
              None \<Rightarrow> Inl NilDereference
            | Some rt \<Rightarrow>
                (case Left rt of
                   None \<Rightarrow> Inl NumberOfLeavesIncorrect
                 | Some left \<Rightarrow>
                     (case GetInclusionProof (Right rt) (n - k) (m - k) of
                        Inl err \<Rightarrow> Inl err
                      | Inr ip \<Rightarrow>
                          Inr \<lparr>LeafIndex = m, TreeSize = n, ProofNonce = ProofNonce ip,
                               Proof = Proof ip @ [Hash left]\<rparr>)))))"
  by pat_completeness auto
termination
proof (relation "measure (\<lambda>(root, n, m). size_option size root)")
  show "wf (measure (\<lambda>(root, n, m). size_option size root))" by simp
next
  fix root :: "node option" and n m k :: "64 word" and rt right
  assume "root = Some rt" "Right rt = Some right"
  then show "((Left rt, k, m), (root, n, m)) \<in> measure (\<lambda>(root, n, m). size_option size root)"
    by (cases rt) simp
next
  fix root :: "node option" and n m k :: "64 word" and rt left
  assume "root = Some rt" "Left rt = Some left"
  then show "((Right rt, n - k, m - k), (root, n, m)) \<in> measure (\<lambda>(root, n, m). size_option size root)"
    by (cases rt) simp
qed

text \<open>\<open>GetLeaf\<close> returns the pointer it ends at, nil or not.\<close>

function GetLeaf :: "node option \<Rightarrow> 64 word \<Rightarrow> 64 word \<Rightarrow> error + node option" where
  "GetLeaf root n m =
     (if m \<ge> n then Inl LeafIndexImpossible
      else if n = 1 then Inr root
      else
        (let k = flp2 n in
         if m < k then
           (case root of
              None \<Rightarrow> Inl NilDereference
            | Some rt \<Rightarrow>
                (case Right rt of
                   None \<Rightarrow> Inl NumberOfLeavesIncorrect
                 | Some right \<Rightarrow> GetLeaf (Left rt) k m))
         else
           (case root of
              None \<Rightarrow> Inl NilDereference
            | Some rt \<Rightarrow>
                (case Left rt of
                   None \<Rightarrow> Inl NumberOfLeavesIncorrect
                 | Some left \<Rightarrow> GetLeaf (Right rt) (n - k) (m - k)))))"
  by pat_completeness auto
termination
proof (relation "measure (\<lambda>(root, n, m). size_option size root)")
  show "wf (measure (\<lambda>(root, n, m). size_option size root))" by simp
next
  fix root :: "node option" and n m k :: "64 word" and rt right
  assume "root = Some rt" "Right rt = Some right"
  then show "((Left rt, k, m), (root, n, m)) \<in> measure (\<lambda>(root, n, m). size_option size root)"
    by (cases rt) simp
next
  fix root :: "node option" and n m k :: "64 word" and rt left
  assume "root = Some rt" "Left rt = Some left"
  then show "((Right rt, n - k, m - k), (root, n, m)) \<in> measure (\<lambda>(root, n, m). size_option size root)"
    by (cases rt) simp
qed

section \<open>CalcInclusionProof\<close>

text \<open>The inner loop \<open>for fn&0x1 == 0 && fn != 0 { fn >>= 1; sn >>= 1 }\<close>.\<close>

function shift_loop :: "64 word \<times> 64 word \<Rightarrow> 64 word \<times> 64 word" where
  "shift_loop (fn, sn) =
     (if fn AND 0x1 = 0 \<and> fn \<noteq> 0 then shift_loop (drop_bit 1 fn, drop_bit 1 sn)
      else (fn, sn))"
  by pat_completeness auto
termination
proof (relation "measure (\<lambda>(fn, sn). unat fn)")
  show "wf (measure (\<lambda>(fn, sn). unat fn))" by simp
next
  fix fn sn :: "64 word"
  assume "fn AND 0x1 = 0 \<and> fn \<noteq> 0"
  then have "0 < unat fn" by (simp add: unat_gt_0)
  then have "unat fn div 2 < unat fn" by simp
  then show "((drop_bit 1 fn, drop_bit 1 sn), (fn, sn)) \<in> measure (\<lambda>(fn, sn). unat fn)"
    by (simp add: drop_bit_eq_div unat_div)
qed

text \<open>
  The loop \<open>for _, p := range proof.Proof\<close> over the state \<open>(fn, sn, r)\<close>; an early
  \<open>return nil, err\<close> is \<open>Inl\<close>.
\<close>

fun proof_loop ::
  "hashfn \<Rightarrow> 64 word \<times> 64 word \<times> bytes \<Rightarrow> bytes list \<Rightarrow> error + 64 word \<times> 64 word \<times> bytes" where
  "proof_loop H (fn, sn, r) [] = Inr (fn, sn, r)"
| "proof_loop H (fn, sn, r) (p # ps) =
     (if sn = 0 then Inl SizeIndexMismatch
      else if fn AND 0x1 = 1 \<or> fn = sn then
        (case shift_loop (fn, sn) of
           (fn', sn') \<Rightarrow> proof_loop H (drop_bit 1 fn', drop_bit 1 sn', H ([0x01] @ p @ r)) ps)
      else proof_loop H (drop_bit 1 fn, drop_bit 1 sn, H ([0x01] @ r @ p)) ps)"

text \<open>The proof is the struct the pointer refers to.\<close>

definition CalcInclusionProof :: "hashfn \<Rightarrow> InclusionProof \<Rightarrow> reader \<Rightarrow> error + bytes" where
  "CalcInclusionProof H prf rd =
     (case HashLeaf H rd (ProofNonce prf) of
        Inl err \<Rightarrow> Inl err
      | Inr leafHash \<Rightarrow>
          if LeafIndex prf \<ge> TreeSize prf then Inl InvalidLeafIndex
          else
            (case proof_loop H (LeafIndex prf, TreeSize prf - 1, leafHash) (Proof prf) of
               Inl err \<Rightarrow> Inl err
             | Inr (fn, sn, r) \<Rightarrow> if sn \<noteq> 0 then Inl SizeIndexMismatch else Inr r))"

section \<open>The specification's verifier\<close>

text \<open>
  The fold of the audit path as the specification words it, on natural numbers: the
  lowest bit is the parity, a right shift is a halving. \<open>spec_shift\<close> is the repeated
  shift of both counters while the lowest bit of \<open>fn\<close> is zero and \<open>fn\<close> is not zero.
\<close>

function spec_shift :: "nat \<times> nat \<Rightarrow> nat \<times> nat" where
  "spec_shift (fn, sn) =
     (if even fn \<and> fn \<noteq> 0 then spec_shift (fn div 2, sn div 2) else (fn, sn))"
  by pat_completeness auto
termination
  by (relation "measure fst") auto

declare spec_shift.simps [simp del]

fun spec_fold ::
  "hashfn \<Rightarrow> nat \<times> nat \<times> bytes \<Rightarrow> bytes list \<Rightarrow> error_kind + nat \<times> nat \<times> bytes" where
  "spec_fold H (fn, sn, r) [] = Inr (fn, sn, r)"
| "spec_fold H (fn, sn, r) (p # ps) =
     (if sn = 0 then Inl ProofSizeMismatch
      else if odd fn \<or> fn = sn then
        (case spec_shift (fn, sn) of
           (fn', sn') \<Rightarrow> spec_fold H (fn' div 2, sn' div 2, H ([0x01] @ p @ r)) ps)
      else spec_fold H (fn div 2, sn div 2, H ([0x01] @ r @ p)) ps)"

definition spec_verify_proof ::
  "hashfn \<Rightarrow> nat \<Rightarrow> nat \<Rightarrow> bytes \<Rightarrow> bytes list \<Rightarrow> reader \<Rightarrow> error_kind + bytes" where
  "spec_verify_proof H leaf_index tree_size nonce path stream =
     (case stream of
        Inl msg \<Rightarrow> Inl IOFailure
      | Inr content \<Rightarrow>
          if leaf_index \<ge> tree_size then Inl IndexOutOfRange
          else
            (case spec_fold H (leaf_index, tree_size - 1, H ([0x00] @ nonce @ content)) path of
               Inl e \<Rightarrow> Inl e
             | Inr (fn, sn, r) \<Rightarrow> if sn \<noteq> 0 then Inl ProofSizeMismatch else Inr r))"

section \<open>Tree shapes and the descent\<close>

text \<open>A tree is well formed when every node has both children or neither.\<close>

fun well_formed :: "node \<Rightarrow> bool" where
  "well_formed (Node h nm l r nc) =
     (case l of
        None \<Rightarrow> r = None
      | Some a \<Rightarrow> (case r of None \<Rightarrow> False | Some b \<Rightarrow> well_formed a \<and> well_formed b))"

text \<open>
  \<open>descent root n m c n' m'\<close>: the recursion of \<open>GetInclusionProof\<close> and \<open>GetLeaf\<close>,
  called on \<open>root\<close> with \<open>n\<close> and \<open>m\<close>, reaches a call on the node \<open>c\<close> with \<open>n'\<close> and
  \<open>m'\<close>. A step to the left child is taken when \<open>m < flp2 n\<close> and the right child is
  there, a step to the right child when \<open>m \<ge> flp2 n\<close> and the left child is there.
\<close>

inductive descent :: "node \<Rightarrow> 64 word \<Rightarrow> 64 word \<Rightarrow> node \<Rightarrow> 64 word \<Rightarrow> 64 word \<Rightarrow> bool" where
  here: "descent root n m root n m"
| left: "\<lbrakk>\<not> n \<le> m; n \<noteq> 1; m < flp2 n; Right root = Some right; Left root = Some l;
          descent l (flp2 n) m c n' m'\<rbrakk> \<Longrightarrow> descent root n m c n' m'"
| right: "\<lbrakk>\<not> n \<le> m; n \<noteq> 1; \<not> m < flp2 n; Left root = Some left; Right root = Some r;
          descent r (n - flp2 n) (m - flp2 n) c n' m'\<rbrakk> \<Longrightarrow> descent root n m c n' m'"

section \<open>A worked example\<close>

text \<open>
  A small stand-in digest and three leaves hashed with it, to run the operations on
  concrete data. Every theorem below holds for an arbitrary digest \<open>H\<close>.
\<close>

definition toy_hash :: hashfn where
  "toy_hash bs = [of_nat (length bs), sum_list bs]"

definition leaf_a :: node where
  "leaf_a = Node (toy_hash ([0x00] @ [1] @ [10, 11])) ''a'' None None (Some [1])"

definition leaf_b :: node where
  "leaf_b = Node (toy_hash ([0x00] @ [2] @ [20])) ''b'' None None (Some [2])"

definition leaf_c :: node where
  "leaf_c = Node (toy_hash ([0x00] @ [3] @ [30, 31, 32])) ''c'' None None (Some [3])"

definition example_leaves :: "node list" where
  "example_leaves = [leaf_a, leaf_b, leaf_c]"

section \<open>Auxiliary notions for the proofs\<close>

text \<open>
  \<open>smear y\<close> is the value of \<open>x\<close> in \<open>flp2\<close> after the six shift-and-or statements,
  started at \<open>y\<close>. \<open>smear_upto d x y\<close>: bit \<open>i\<close> of \<open>x\<close> is set exactly when \<open>y\<close> has a
  bit set among the positions \<open>i, \<dots>, i + d\<close>.
\<close>

definition smear :: "64 word \<Rightarrow> 64 word" where
  "smear y = (let x = y;
          x = x OR (drop_bit 1 x);
          x = x OR (drop_bit 2 x);
          x = x OR (drop_bit 4 x);
          x = x OR (drop_bit 8 x);
          x = x OR (drop_bit 16 x);
          x = x OR (drop_bit 32 x) in x)"

definition smear_upto :: "nat \<Rightarrow> 64 word \<Rightarrow> 64 word \<Rightarrow> bool" where
  "smear_upto d x y = (\<forall>i. bit x i = (\<exists>j. i \<le> j \<and> j \<le> i + d \<and> bit y j))"

text \<open>
  \<open>audit_ok H n m lh root path\<close>: folding \<open>path\<close> from the leaf hash \<open>lh\<close> of leaf \<open>m\<close>
  in a subtree of \<open>n\<close> leaves arrives at \<open>root\<close>, both when the subtree is the last one
  of a larger tree (it starts at leaf \<open>c * 2 ^ j\<close> and ends the tree) and when it is a
  full subtree of \<open>2 ^ i\<close> leaves with more leaves to its right.
\<close>

definition audit_ok :: "hashfn \<Rightarrow> nat \<Rightarrow> nat \<Rightarrow> bytes \<Rightarrow> bytes \<Rightarrow> bytes list \<Rightarrow> bool" where
  "audit_ok H n m lh root path \<longleftrightarrow>
     (\<forall>j c. n \<le> 2 ^ j \<longrightarrow>
        (\<exists>d. spec_fold H (c * 2 ^ j + m, c * 2 ^ j + n - 1, lh) path = Inr (c * 2 ^ d, c * 2 ^ d, root)))
     \<and> (\<forall>i a b s. n = 2 ^ i \<and> a < b \<and> s < 2 ^ i \<longrightarrow>
        spec_fold H (a * 2 ^ i + m, b * 2 ^ i + s, lh) path = Inr (a, b, root))"

section \<open>Properties of flp2\<close>

lemma smear_upto_0: "smear_upto 0 y y"
  by (auto simp: smear_upto_def)

lemma smear_upto_step:
  assumes "smear_upto d x y" and "s \<le> d + 1"
  shows "smear_upto (d + s) (x OR drop_bit s x) y"
  unfolding smear_upto_def
proof
  fix i
  have "bit (x OR drop_bit s x) i = (bit x i \<or> bit x (i + s))"
    by (auto simp: bit_or_iff bit_drop_bit_eq add.commute)
  also have "\<dots> = ((\<exists>j. i \<le> j \<and> j \<le> i + d \<and> bit y j) \<or> (\<exists>j. i + s \<le> j \<and> j \<le> i + s + d \<and> bit y j))"
    using assms(1) by (simp add: smear_upto_def)
  also have "\<dots> = (\<exists>j. i \<le> j \<and> j \<le> i + (d + s) \<and> bit y j)"
  proof
    assume "(\<exists>j. i \<le> j \<and> j \<le> i + d \<and> bit y j) \<or> (\<exists>j. i + s \<le> j \<and> j \<le> i + s + d \<and> bit y j)"
    then show "\<exists>j. i \<le> j \<and> j \<le> i + (d + s) \<and> bit y j"
      by (elim disjE exE) (rule_tac x=j in exI, simp)+
  next
    assume "\<exists>j. i \<le> j \<and> j \<le> i + (d + s) \<and> bit y j"
    then obtain j where j: "i \<le> j" "j \<le> i + (d + s)" "bit y j" by blast
    show "(\<exists>j. i \<le> j \<and> j \<le> i + d \<and> bit y j) \<or> (\<exists>j. i + s \<le> j \<and> j \<le> i + s + d \<and> bit y j)"
    proof (cases "j \<le> i + d")
      case True with j show ?thesis by blast
    next
      case False
      with j assms(2) have "i + s \<le> j \<and> j \<le> i + s + d" by simp
      with j show ?thesis by blast
    qed
  qed
  finally show "bit (x OR drop_bit s x) i = (\<exists>j. i \<le> j \<and> j \<le> i + (d + s) \<and> bit y j)" .
qed

lemma flp2_smear: "flp2 x = smear (x - 1) - drop_bit 1 (smear (x - 1))"
  unfolding flp2_def smear_def Let_def ..

lemma smear_upto_63: "smear_upto 63 (smear y) y"
proof -
  note s = smear_upto_step
  have "smear_upto (0 + 1 + 2 + 4 + 8 + 16 + 32) (smear y) y"
    unfolding smear_def Let_def
    by (intro s smear_upto_0) simp_all
  then show ?thesis by simp
qed

lemma bit_smear: "bit (smear y) i = (\<exists>j\<ge>i. bit y j)"
proof
  assume "bit (smear y) i"
  with smear_upto_63 [of y] show "\<exists>j\<ge>i. bit y j"
    by (auto simp: smear_upto_def)
next
  assume "\<exists>j\<ge>i. bit y j"
  then obtain j where j: "i \<le> j" "bit y j" by blast
  then have "j < 64" by (auto dest: bit_imp_le_length)
  with j have "i \<le> j \<and> j \<le> i + 63 \<and> bit y j" by simp
  with smear_upto_63 [of y] show "bit (smear y) i"
    unfolding smear_upto_def by blast
qed

lemma nat_bit_window:
  fixes n :: nat
  assumes "2 ^ L \<le> n" "n < 2 ^ Suc L"
  shows "(\<exists>j\<ge>i. bit n j) = (i \<le> L)"
proof
  assume "\<exists>j\<ge>i. bit n j"
  then obtain j where j: "i \<le> j" "bit n j" by blast
  have "j \<le> L"
  proof (rule ccontr)
    assume "\<not> j \<le> L"
    then have "Suc L \<le> j" by simp
    then have "(2::nat) ^ Suc L \<le> 2 ^ j" by (rule power_increasing) simp
    with assms(2) have "n < 2 ^ j" by simp
    then have "n div 2 ^ j = 0" by simp
    with j(2) show False by (simp add: bit_iff_odd)
  qed
  with j(1) show "i \<le> L" by simp
next
  assume "i \<le> L"
  have "n div 2 ^ L = 1"
  proof -
    have "n div 2 ^ L < 2" using assms(2) by (simp add: less_mult_imp_div_less mult.commute)
    moreover have "0 < n div 2 ^ L" using assms(1) by (simp add: div_greater_zero_iff)
    ultimately show ?thesis by simp
  qed
  then have "bit n L" by (simp add: bit_iff_odd)
  with \<open>i \<le> L\<close> show "\<exists>j\<ge>i. bit n j" by blast
qed

lemma smear_eq_mask:
  assumes "2 ^ L \<le> unat y" "unat y < 2 ^ Suc L"
  shows "smear y = mask (Suc L)"
proof (rule bit_word_eqI)
  fix i assume i: "i < LENGTH(64)"
  have "bit (smear y) i = (\<exists>j\<ge>i. bit (unat y) j)"
    by (simp add: bit_smear bit_unsigned_iff)
  also have "\<dots> = (i \<le> L)" using assms by (rule nat_bit_window)
  also have "\<dots> = bit (mask (Suc L) :: 64 word) i"
    using i by (auto simp: bit_mask_iff)
  finally show "bit (smear y) i = bit (mask (Suc L) :: 64 word) i" .
qed

lemma flp2_pow2:
  assumes "2 ^ L \<le> unat (x - 1)" "unat (x - 1) < 2 ^ Suc L"
  shows "flp2 x = 2 ^ L"
proof -
  have "unat (x - 1) < 2 ^ 64" using unsigned_less [of "x - 1"] by simp
  with assms(1) have "(2::nat) ^ L < 2 ^ 64" by simp
  then have L64: "L < 64" by (rule power_less_imp_less_exp [rotated]) simp
  have "flp2 x = mask (Suc L) - drop_bit 1 (mask (Suc L))"
    using assms by (simp add: flp2_smear smear_eq_mask)
  also have "drop_bit 1 (mask (Suc L) :: 64 word) = mask L"
    using L64 by (intro bit_word_eqI) (auto simp: bit_simps)
  also have "(mask (Suc L) :: 64 word) - mask L = 2 ^ L"
    by (simp add: mask_eq_exp_minus_1)
  finally show ?thesis .
qed

lemma unat_pred: "(2::64 word) \<le> x \<Longrightarrow> unat (x - 1) = unat x - 1"
  by (rule unat_minus_one) auto

lemma flp2_ex:
  assumes "(2::64 word) \<le> x"
  shows "\<exists>L. L < 64 \<and> flp2 x = 2 ^ L \<and> unat (flp2 x) = 2 ^ L \<and> 2 ^ L < unat x \<and> unat x \<le> 2 ^ Suc L"
proof -
  have x2: "2 \<le> unat x" using assms by (simp add: word_le_nat_alt)
  have y: "unat (x - 1) = unat x - 1" using assms by (rule unat_pred)
  with x2 have "1 \<le> unat (x - 1)" by simp
  from ex_power_ivl1 [OF order_refl this]
  obtain L where L: "2 ^ L \<le> unat (x - 1)" "unat (x - 1) < 2 ^ (L + 1)" by blast
  have "unat (x - 1) < 2 ^ 64" using unsigned_less [of "x - 1"] by simp
  with L(1) have "(2::nat) ^ L < 2 ^ 64" by simp
  then have L64: "L < 64" by (rule power_less_imp_less_exp [rotated]) simp
  have f: "flp2 x = 2 ^ L" using L by (intro flp2_pow2) simp_all
  have "(2::nat) ^ L < 2 ^ LENGTH(64)" using L64 by (intro power_strict_increasing) simp_all
  then have "unat (word_of_nat (2 ^ L) :: 64 word) = 2 ^ L"
    by (simp only: unat_of_nat mod_less)
  then have u: "unat (flp2 x) = 2 ^ L" by (simp add: f)
  from L y x2 have "2 ^ L < unat x" "unat x \<le> 2 ^ Suc L" by simp_all
  with L64 f u show ?thesis by blast
qed

lemma unat_pow2: "L < 64 \<Longrightarrow> unat (2 ^ L :: 64 word) = 2 ^ L"
proof -
  assume "L < 64"
  then have "(2::nat) ^ L < 2 ^ LENGTH(64)" by (intro power_strict_increasing) simp_all
  then have "unat (word_of_nat (2 ^ L) :: 64 word) = 2 ^ L"
    by (simp only: unat_of_nat mod_less)
  then show ?thesis by simp
qed

lemma flp2_of_pow2:
  assumes "e < 63"
  shows "flp2 (2 ^ Suc e) = 2 ^ e"
proof -
  have u: "unat (2 ^ Suc e :: 64 word) = 2 ^ Suc e" using assms by (intro unat_pow2) simp
  then have "(2 ^ Suc e :: 64 word) \<noteq> 0" by (metis unat_0 power_not_zero zero_neq_numeral)
  then have "unat (2 ^ Suc e - 1 :: 64 word) = unat (2 ^ Suc e :: 64 word) - 1"
    by (rule unat_minus_one)
  then have "unat (2 ^ Suc e - 1 :: 64 word) = 2 ^ Suc e - 1"
    by (simp only: u)
  then show ?thesis by (intro flp2_pow2) simp_all
qed

lemma flp2_largest:
  assumes "(2::64 word) \<le> x" "2 ^ j < unat x"
  shows "2 ^ j \<le> unat (flp2 x)"
proof -
  from flp2_ex [OF assms(1)] obtain L where
    L: "unat (flp2 x) = 2 ^ L" "unat x \<le> 2 ^ Suc L" by blast
  with assms(2) have "(2::nat) ^ j < 2 ^ Suc L" by simp
  then have "j < Suc L" by (rule power_less_imp_less_exp [rotated]) simp
  then have "j \<le> L" by simp
  then have "(2::nat) ^ j \<le> 2 ^ L" by (intro power_increasing) simp_all
  with L(1) show ?thesis by simp
qed

text \<open>
  C4: for every 64-bit \<open>n \<ge> 2\<close>, \<open>flp2 n\<close> is a power of two, lies strictly below \<open>n\<close>,
  \<open>n\<close> is at most twice \<open>flp2 n\<close>, and no power of two strictly below \<open>n\<close> exceeds it;
  \<open>flp2\<close> of an exact power of two is its half, \<open>flp2 3 = 2\<close> and \<open>flp2 5 = 4\<close>.
\<close>

theorem flp2_previous_power_of_two:
  assumes "2 \<le> n"
  shows "(\<exists>e. unat (flp2 n) = 2 ^ e) \<and> unat (flp2 n) < unat n \<and> unat n \<le> 2 * unat (flp2 n)
         \<and> (\<forall>j. 2 ^ j < unat n \<longrightarrow> 2 ^ j \<le> unat (flp2 n))
         \<and> (\<forall>e<63. flp2 (2 ^ Suc e) = 2 ^ e) \<and> flp2 3 = 2 \<and> flp2 5 = 4"
proof -
  from flp2_ex [OF assms] obtain L where
    L: "unat (flp2 n) = 2 ^ L" "2 ^ L < unat n" "unat n \<le> 2 ^ Suc L" by blast
  have "\<exists>e. unat (flp2 n) = 2 ^ e" using L(1) by blast
  moreover have "unat (flp2 n) < unat n" using L by simp
  moreover have "unat n \<le> 2 * unat (flp2 n)" using L by simp
  moreover have "\<forall>j. 2 ^ j < unat n \<longrightarrow> 2 ^ j \<le> unat (flp2 n)"
    using flp2_largest [OF assms] by blast
  moreover have "\<forall>e<63. flp2 (2 ^ Suc e) = 2 ^ e"
    using flp2_of_pow2 by blast
  moreover have "flp2 3 = 2" by (simp add: flp2_def)
  moreover have "flp2 5 = 4" by (simp add: flp2_def)
  ultimately show ?thesis by blast
qed

theorem flp2_previous_power_of_two_witness:
  "(2::64 word) \<le> 6 \<and> (\<exists>e. unat (flp2 6) = 2 ^ e) \<and> unat (flp2 6) < unat (6::64 word)
   \<and> unat (6::64 word) \<le> 2 * unat (flp2 6)
   \<and> (2::nat) ^ 2 < unat (6::64 word) \<and> (2::nat) ^ 2 \<le> unat (flp2 6)
   \<and> (3::nat) < 63 \<and> flp2 (2 ^ Suc 3) = 2 ^ 3"
proof -
  have h: "(2::64 word) \<le> 6" by simp
  have j: "(2::nat) ^ 2 < unat (6::64 word)" by simp
  have e: "(3::nat) < 63" by simp
  from flp2_previous_power_of_two [OF h] h j e show ?thesis by blast
qed

section \<open>The verifier on machine words and on natural numbers\<close>

declare GetInclusionProof.simps [simp del] GetLeaf.simps [simp del] shift_loop.simps [simp del]

lemma unat_shift1: "unat (drop_bit 1 (w :: 64 word)) = unat w div 2"
  by (simp add: drop_bit_eq_div unat_div)

lemma unat_shift_Suc0: "unat (drop_bit (Suc 0) (w :: 64 word)) = unat w div 2"
  using unat_shift1 [of w] by simp

lemma and1_eq0: "(w :: 64 word) AND 1 = 0 \<longleftrightarrow> even (unat w)"
  by (simp add: and_one_eq word_eq_iff_unsigned [where ?'a = nat] unat_mod even_iff_mod_2_eq_zero)

lemma and1_eq1: "(w :: 64 word) AND 1 = 1 \<longleftrightarrow> odd (unat w)"
  by (simp add: and_one_eq word_eq_iff_unsigned [where ?'a = nat] unat_mod odd_iff_mod_2_eq_one)

lemma shift_loop_unat:
  "(case shift_loop (fn, sn) of (a, b) \<Rightarrow> (unat a, unat b)) = spec_shift (unat fn, unat sn)"
proof (induction "(fn, sn)" arbitrary: fn sn rule: shift_loop.induct)
  case (1 fn sn)
  show ?case
  proof (cases "fn AND 0x1 = 0 \<and> fn \<noteq> 0")
    case True
    then have "even (unat fn) \<and> unat fn \<noteq> 0" by (simp add: and1_eq0 unat_eq_zero)
    with True "1" show ?thesis
      by (subst shift_loop.simps, subst spec_shift.simps) (simp add: unat_shift_Suc0 del: drop_bit_of_1)
  next
    case False
    then have "\<not> (even (unat fn) \<and> unat fn \<noteq> 0)" by (simp add: and1_eq0 unat_eq_zero)
    have "shift_loop (fn, sn) = (fn, sn)"
      using False by (subst shift_loop.simps) (simp only: if_False)
    moreover have "spec_shift (unat fn, unat sn) = (unat fn, unat sn)"
      using \<open>\<not> (even (unat fn) \<and> unat fn \<noteq> 0)\<close> by (subst spec_shift.simps) (simp only: if_False)
    ultimately show ?thesis by simp
  qed
qed

lemma proof_loop_refines:
  "map_sum kind_of (\<lambda>(fn, sn, r). (unat fn, unat sn, r)) (proof_loop H (fn, sn, r) ps)
   = spec_fold H (unat fn, unat sn, r) ps"
proof (induction ps arbitrary: fn sn r)
  case Nil
  show ?case by simp
next
  case (Cons p ps)
  obtain a b where ab: "shift_loop (fn, sn) = (a, b)" by (cases "shift_loop (fn, sn)")
  with shift_loop_unat [of fn sn] have s: "spec_shift (unat fn, unat sn) = (unat a, unat b)" by simp
  have z: "(sn = 0) = (unat sn = 0)" by (simp add: unat_eq_zero)
  have e: "(fn = sn) = (unat fn = unat sn)" by (simp add: word_unat_eq_iff)
  show ?case
    by (simp add: ab s z e and1_eq1 unat_shift_Suc0 Cons.IH del: drop_bit_of_1)
qed

lemma spec_fold_append:
  "spec_fold H s (ps @ qs) = (case spec_fold H s ps of Inl e \<Rightarrow> Inl e | Inr s' \<Rightarrow> spec_fold H s' qs)"
  by (induction H s ps rule: spec_fold.induct) (auto split: prod.splits)

lemma spec_shift_stop: "odd fn \<or> fn = 0 \<Longrightarrow> spec_shift (fn, sn) = (fn, sn)"
  by (subst spec_shift.simps) auto

lemma spec_shift_pow: "odd c \<Longrightarrow> spec_shift (c * 2 ^ d, c * 2 ^ d) = (c, c)"
proof (induction d)
  case 0
  then show ?case by (simp add: spec_shift_stop)
next
  case (Suc d)
  then have "c \<noteq> 0" by (auto elim: oddE)
  with Suc show ?case by (subst spec_shift.simps) simp
qed

lemma fold_step_right_sibling:
  "sn \<noteq> 0 \<Longrightarrow> even fn \<Longrightarrow> fn \<noteq> sn \<Longrightarrow>
   spec_fold H (fn, sn, r) [p] = Inr (fn div 2, sn div 2, H ([0x01] @ r @ p))"
  by simp

lemma fold_step_odd:
  "sn \<noteq> 0 \<Longrightarrow> odd fn \<Longrightarrow>
   spec_fold H (fn, sn, r) [p] = Inr (fn div 2, sn div 2, H ([0x01] @ p @ r))"
  by (simp add: spec_shift_stop)

lemma fold_step_spine:
  assumes "odd c"
  shows "spec_fold H (c * 2 ^ d, c * 2 ^ d, r) [p] = Inr (c div 2, c div 2, H ([0x01] @ p @ r))"
proof -
  from assms have "c * 2 ^ d \<noteq> 0" by (auto elim: oddE)
  then show ?thesis using assms by (simp add: spec_shift_pow)
qed

lemma audit_ok_single: "audit_ok H 1 0 lh lh []"
proof -
  have "\<exists>d. spec_fold H (c * 2 ^ j + 0, c * 2 ^ j + 1 - 1, lh) [] = Inr (c * 2 ^ d, c * 2 ^ d, lh)" for j c
    by (intro exI [of _ j]) simp
  moreover have "spec_fold H (a * 2 ^ i + 0, b * 2 ^ i + s, lh) [] = Inr (a, b, lh)"
    if "(1::nat) = 2 ^ i \<and> a < b \<and> s < 2 ^ i" for i a b s
  proof -
    from that have "(2::nat) ^ i = 1" by simp
    with that show ?thesis by simp
  qed
  ultimately show ?thesis unfolding audit_ok_def by blast
qed

lemma pow2_between:
  fixes n :: nat
  assumes "2 ^ e < n" "n \<le> 2 ^ j"
  shows "\<exists>t. j = Suc (e + t)"
proof -
  from assms have "(2::nat) ^ e < 2 ^ j" by (rule less_le_trans)
  then have "e < j" by (rule power_less_imp_less_exp [rotated]) simp
  then show ?thesis by (rule less_imp_Suc_add)
qed

lemma pow2_next:
  assumes "(2::nat) ^ e < 2 ^ i" "(2::nat) ^ i \<le> 2 * 2 ^ e"
  shows "i = Suc e"
proof -
  from assms(1) have "e < i" by (rule power_less_imp_less_exp [rotated]) simp
  moreover have "i \<le> Suc e"
  proof -
    from assms(2) have "(2::nat) ^ i \<le> 2 ^ Suc e" by simp
    then show ?thesis by (rule power_le_imp_le_exp [rotated]) simp
  qed
  ultimately show ?thesis by simp
qed

lemma audit_ok_left:
  assumes k: "k = 2 ^ e" "k < n" "n \<le> 2 * k" and m: "m < k"
    and sub: "audit_ok H k m lh hl path"
  shows "audit_ok H n m lh (H ([0x01] @ hl @ hr)) (path @ [hr])"
proof -
  from sub have complete: "\<And>a b s. a < b \<Longrightarrow> s < 2 ^ e \<Longrightarrow>
      spec_fold H (a * 2 ^ e + m, b * 2 ^ e + s, lh) path = Inr (a, b, hl)"
    unfolding audit_ok_def k(1) by blast
  have spine: "\<exists>d. spec_fold H (c * 2 ^ j + m, c * 2 ^ j + n - 1, lh) (path @ [hr])
                 = Inr (c * 2 ^ d, c * 2 ^ d, H ([0x01] @ hl @ hr))"
    if nj: "n \<le> 2 ^ j" for j c
  proof -
    from k nj have "\<exists>t. j = Suc (e + t)" by (intro pow2_between [of e n j]) simp_all
    then obtain t where j: "j = Suc (e + t)" by blast
    define a where "a = 2 * (c * 2 ^ t)"
    have cj: "c * 2 ^ j = a * 2 ^ e" by (simp add: j a_def power_add)
    have s: "n - 1 - k < 2 ^ e" using k by simp
    have sn: "a * 2 ^ e + n - 1 = (a + 1) * 2 ^ e + (n - 1 - k)"
      using k by (simp add: algebra_simps)
    have "spec_fold H (a * 2 ^ e + m, (a + 1) * 2 ^ e + (n - 1 - k), lh) path = Inr (a, a + 1, hl)"
      using s by (intro complete) simp_all
    then have "spec_fold H (c * 2 ^ j + m, c * 2 ^ j + n - 1, lh) path = Inr (a, a + 1, hl)"
      by (simp only: cj sn)
    moreover have "spec_fold H (a, a + 1, hl) [hr] = Inr (a div 2, (a + 1) div 2, H ([0x01] @ hl @ hr))"
      by (rule fold_step_right_sibling) (simp_all add: a_def)
    moreover have "a div 2 = c * 2 ^ t" "(a + 1) div 2 = c * 2 ^ t" by (simp_all add: a_def)
    ultimately have "spec_fold H (c * 2 ^ j + m, c * 2 ^ j + n - 1, lh) (path @ [hr])
        = Inr (c * 2 ^ t, c * 2 ^ t, H ([0x01] @ hl @ hr))"
      by (simp only: spec_fold_append sum.case)
    then show ?thesis by blast
  qed
  have full: "spec_fold H (a * 2 ^ i + m, b * 2 ^ i + s, lh) (path @ [hr])
                 = Inr (a, b, H ([0x01] @ hl @ hr))"
    if h: "n = 2 ^ i \<and> a < b \<and> s < 2 ^ i" for i a b s
  proof -
    from k h have i: "i = Suc e" by (intro pow2_next) simp_all
    define q where "q = s div 2 ^ e"
    have q2: "q < 2" using h by (simp add: q_def i less_mult_imp_div_less)
    have s: "s = q * 2 ^ e + s mod 2 ^ e" unfolding q_def by (rule div_mult_mod_eq [symmetric])
    have fn: "a * 2 ^ i + m = (2 * a) * 2 ^ e + m" by (simp add: i)
    have sn: "b * 2 ^ i + s = (2 * b + q) * 2 ^ e + s mod 2 ^ e"
      by (subst s) (simp add: i algebra_simps)
    have "spec_fold H ((2 * a) * 2 ^ e + m, (2 * b + q) * 2 ^ e + s mod 2 ^ e, lh) path
            = Inr (2 * a, 2 * b + q, hl)"
      using h by (intro complete) simp_all
    then have "spec_fold H (a * 2 ^ i + m, b * 2 ^ i + s, lh) path = Inr (2 * a, 2 * b + q, hl)"
      by (simp only: fn sn)
    moreover have "spec_fold H (2 * a, 2 * b + q, hl) [hr]
            = Inr ((2 * a) div 2, (2 * b + q) div 2, H ([0x01] @ hl @ hr))"
      using h by (intro fold_step_right_sibling) simp_all
    moreover have "(2 * a) div 2 = a" "(2 * b + q) div 2 = b" using q2 by simp_all
    ultimately show ?thesis by (simp only: spec_fold_append sum.case)
  qed
  show ?thesis unfolding audit_ok_def using spine full by blast
qed

lemma audit_ok_right:
  assumes k: "k = 2 ^ e" "k < n" "n \<le> 2 * k" and m: "k \<le> m" "m < n"
    and sub: "audit_ok H (n - k) (m - k) lh hr path"
  shows "audit_ok H n m lh (H ([0x01] @ hl @ hr)) (path @ [hl])"
proof -
  from sub have sub_spine: "\<And>j c. n - k \<le> 2 ^ j \<Longrightarrow>
      \<exists>d. spec_fold H (c * 2 ^ j + (m - k), c * 2 ^ j + (n - k) - 1, lh) path
            = Inr (c * 2 ^ d, c * 2 ^ d, hr)"
    unfolding audit_ok_def by blast
  from sub have sub_full: "\<And>i a b s. n - k = 2 ^ i \<Longrightarrow> a < b \<Longrightarrow> s < 2 ^ i \<Longrightarrow>
      spec_fold H (a * 2 ^ i + (m - k), b * 2 ^ i + s, lh) path = Inr (a, b, hr)"
    unfolding audit_ok_def by blast
  have spine: "\<exists>d. spec_fold H (c * 2 ^ j + m, c * 2 ^ j + n - 1, lh) (path @ [hl])
                 = Inr (c * 2 ^ d, c * 2 ^ d, H ([0x01] @ hl @ hr))"
    if nj: "n \<le> 2 ^ j" for j c
  proof -
    from k nj have "\<exists>t. j = Suc (e + t)" by (intro pow2_between [of e n j]) simp_all
    then obtain t where j: "j = Suc (e + t)" by blast
    define c' where "c' = 2 * (c * 2 ^ t) + 1"
    have fn: "c * 2 ^ j + m = c' * 2 ^ e + (m - k)"
      using k m by (simp add: j c'_def power_add algebra_simps)
    have sn: "c * 2 ^ j + n - 1 = c' * 2 ^ e + (n - k) - 1"
      using k by (simp add: j c'_def power_add algebra_simps)
    have "n - k \<le> 2 ^ e" using k by simp
    from sub_spine [OF this, of c'] obtain d where
      "spec_fold H (c' * 2 ^ e + (m - k), c' * 2 ^ e + (n - k) - 1, lh) path
         = Inr (c' * 2 ^ d, c' * 2 ^ d, hr)" by blast
    then have "spec_fold H (c * 2 ^ j + m, c * 2 ^ j + n - 1, lh) path
         = Inr (c' * 2 ^ d, c' * 2 ^ d, hr)"
      by (simp only: fn sn)
    moreover have "spec_fold H (c' * 2 ^ d, c' * 2 ^ d, hr) [hl]
         = Inr (c' div 2, c' div 2, H ([0x01] @ hl @ hr))"
      by (rule fold_step_spine) (simp add: c'_def)
    moreover have "c' div 2 = c * 2 ^ t" by (simp add: c'_def)
    ultimately have "spec_fold H (c * 2 ^ j + m, c * 2 ^ j + n - 1, lh) (path @ [hl])
        = Inr (c * 2 ^ t, c * 2 ^ t, H ([0x01] @ hl @ hr))"
      by (simp only: spec_fold_append sum.case)
    then show ?thesis by blast
  qed
  have full: "spec_fold H (a * 2 ^ i + m, b * 2 ^ i + s, lh) (path @ [hl])
                 = Inr (a, b, H ([0x01] @ hl @ hr))"
    if h: "n = 2 ^ i \<and> a < b \<and> s < 2 ^ i" for i a b s
  proof -
    from k h have i: "i = Suc e" by (intro pow2_next) simp_all
    have nk: "n - k = 2 ^ e" using h k by (simp add: i)
    define q where "q = s div 2 ^ e"
    have q2: "q < 2" using h by (simp add: q_def i less_mult_imp_div_less)
    have s: "s = q * 2 ^ e + s mod 2 ^ e" unfolding q_def by (rule div_mult_mod_eq [symmetric])
    have fn: "a * 2 ^ i + m = (2 * a + 1) * 2 ^ e + (m - k)"
      using k m by (simp add: i algebra_simps)
    have sn: "b * 2 ^ i + s = (2 * b + q) * 2 ^ e + s mod 2 ^ e"
      by (subst s) (simp add: i algebra_simps)
    have "spec_fold H ((2 * a + 1) * 2 ^ e + (m - k), (2 * b + q) * 2 ^ e + s mod 2 ^ e, lh) path
            = Inr (2 * a + 1, 2 * b + q, hr)"
      using h by (intro sub_full [OF nk]) simp_all
    then have "spec_fold H (a * 2 ^ i + m, b * 2 ^ i + s, lh) path = Inr (2 * a + 1, 2 * b + q, hr)"
      by (simp only: fn sn)
    moreover have "spec_fold H (2 * a + 1, 2 * b + q, hr) [hl]
            = Inr ((2 * a + 1) div 2, (2 * b + q) div 2, H ([0x01] @ hl @ hr))"
      using h by (intro fold_step_odd) simp_all
    moreover have "(2 * a + 1) div 2 = a" "(2 * b + q) div 2 = b" using q2 by simp_all
    ultimately show ?thesis by (simp only: spec_fold_append sum.case)
  qed
  show ?thesis unfolding audit_ok_def using spine full by blast
qed

section \<open>Building the tree\<close>

lemma CreateTree_Nil: "CreateTree H [] = Some (Node (H []) [] None None None)"
  by (subst CreateTree.simps) simp

lemma CreateTree_single: "CreateTree H [x] = Some x"
  by (subst CreateTree.simps) simp

lemma CreateTree_split:
  "2 \<le> length leaves \<Longrightarrow>
   CreateTree H leaves =
     Option.bind (CreateTree H (take (unat (flp2 (of_nat (length leaves)))) leaves)) (\<lambda>left.
     Option.bind (CreateTree H (drop (unat (flp2 (of_nat (length leaves)))) leaves)) (\<lambda>right.
       Some (Node (H ([0x01] @ Hash left @ Hash right)) [] (Some left) (Some right) None)))"
  by (subst CreateTree.simps) auto

lemma flp2_2: "flp2 2 = 1" by (simp add: flp2_def)
lemma flp2_3: "flp2 3 = 2" by (simp add: flp2_def)

lemma CreateTree_two:
  "CreateTree H [a, b] = Some (Node (H ([0x01] @ Hash a @ Hash b)) [] (Some a) (Some b) None)"
  by (subst CreateTree_split) (simp_all add: flp2_2 CreateTree_single)

lemma CreateTree_three:
  "CreateTree H [a, b, c] =
     Some (Node (H ([0x01] @ H ([0x01] @ Hash a @ Hash b) @ Hash c)) []
            (Some (Node (H ([0x01] @ Hash a @ Hash b)) [] (Some a) (Some b) None)) (Some c) None)"
  by (subst CreateTree_split) (simp_all add: flp2_3 CreateTree_single CreateTree_two)

lemma unat_of_nat64: "n < 2 ^ 64 \<Longrightarrow> unat (of_nat n :: 64 word) = n"
  by (simp add: unat_of_nat)

lemma of_nat_ge2: "2 \<le> n \<Longrightarrow> n < 2 ^ 64 \<Longrightarrow> (2 :: 64 word) \<le> of_nat n"
  by (simp add: word_le_nat_alt unat_of_nat64)

lemma flp2_length:
  assumes "2 \<le> n" "n < 2 ^ 64"
  shows "\<exists>e. unat (flp2 (of_nat n)) = 2 ^ e \<and> 2 ^ e < n \<and> n \<le> 2 * 2 ^ e"
proof -
  from flp2_ex [OF of_nat_ge2 [OF assms]] obtain L where
    "unat (flp2 (of_nat n)) = 2 ^ L" "2 ^ L < unat (of_nat n :: 64 word)"
    "unat (of_nat n :: 64 word) \<le> 2 ^ Suc L" by blast
  then show ?thesis using assms(2) by (auto simp: unat_of_nat64)
qed

lemma CreateTree_induct [consumes 2, case_names single split]:
  assumes len: "length leaves < 2 ^ 64" and ne: "leaves \<noteq> []"
    and single: "\<And>x. P [x] x"
    and split: "\<And>leaves k e l r.
       \<lbrakk>2 \<le> length leaves; length leaves < 2 ^ 64;
        unat (flp2 (of_nat (length leaves))) = k; k = 2 ^ e; k < length leaves; length leaves \<le> 2 * k;
        CreateTree H (take k leaves) = Some l; CreateTree H (drop k leaves) = Some r;
        P (take k leaves) l; P (drop k leaves) r\<rbrakk>
       \<Longrightarrow> P leaves (Node (H ([0x01] @ Hash l @ Hash r)) [] (Some l) (Some r) None)"
  shows "\<exists>t. CreateTree H leaves = Some t \<and> P leaves t"
  using len ne
proof (induction "length leaves" arbitrary: leaves rule: less_induct)
  case less
  show ?case
  proof (cases "length leaves = 1")
    case True
    then obtain x where "leaves = [x]" by (cases leaves) auto
    then show ?thesis using single by (simp add: CreateTree_single)
  next
    case False
    moreover have "length leaves \<noteq> 0" using less.prems(2) by simp
    ultimately have n2: "2 \<le> length leaves" by linarith
    from flp2_length [OF n2 less.prems(1)] obtain e where
      e: "unat (flp2 (of_nat (length leaves))) = 2 ^ e" "2 ^ e < length leaves"
         "length leaves \<le> 2 * 2 ^ e" by blast
    define k :: nat where "k = 2 ^ e"
    have k: "unat (flp2 (of_nat (length leaves))) = k" "k < length leaves" "length leaves \<le> 2 * k" "0 < k"
      using e by (simp_all add: k_def)
    have "length (take k leaves) < length leaves" "length (take k leaves) < 2 ^ 64" "take k leaves \<noteq> []"
      using k less.prems by auto
    from less.hyps [OF this] obtain l where l: "CreateTree H (take k leaves) = Some l" "P (take k leaves) l"
      by blast
    have "length (drop k leaves) < length leaves" "length (drop k leaves) < 2 ^ 64" "drop k leaves \<noteq> []"
      using k less.prems by auto
    from less.hyps [OF this] obtain r where r: "CreateTree H (drop k leaves) = Some r" "P (drop k leaves) r"
      by blast
    have "CreateTree H leaves = Some (Node (H ([0x01] @ Hash l @ Hash r)) [] (Some l) (Some r) None)"
      by (subst CreateTree_split [OF n2]) (simp add: k l r)
    moreover have "P leaves (Node (H ([0x01] @ Hash l @ Hash r)) [] (Some l) (Some r) None)"
      using n2 less.prems(1) k(1) k_def k(2,3) l(1) r(1) l(2) r(2) by (rule split)
    ultimately show ?thesis by blast
  qed
qed

lemma CreateTree_node:
  assumes "2 \<le> length leaves" "length leaves < 2 ^ 64"
  shows "\<exists>k e l r. k = unat (flp2 (of_nat (length leaves)))
          \<and> k = 2 ^ e \<and> k < length leaves \<and> length leaves \<le> 2 * k
          \<and> CreateTree H (take k leaves) = Some l
          \<and> CreateTree H (drop k leaves) = Some r
          \<and> CreateTree H leaves
              = Some (Node (H ([0x01] @ Hash l @ Hash r)) [] (Some l) (Some r) None)"
proof -
  from assms(1) have ne: "leaves \<noteq> []" by auto
  define P where "P = (\<lambda>(ls :: node list) (t :: node). 2 \<le> length ls \<longrightarrow>
       (\<exists>k e l r. k = unat (flp2 (of_nat (length ls)))
          \<and> k = 2 ^ e \<and> k < length ls \<and> length ls \<le> 2 * k
          \<and> CreateTree H (take k ls) = Some l
          \<and> CreateTree H (drop k ls) = Some r
          \<and> t = Node (H ([0x01] @ Hash l @ Hash r)) [] (Some l) (Some r) None))"
  from assms(2) ne have "\<exists>t. CreateTree H leaves = Some t \<and> P leaves t"
  proof (induction rule: CreateTree_induct)
    case (single x)
    show ?case by (simp add: P_def)
  next
    case (split leaves k e l r)
    then show ?case unfolding P_def by blast
  qed
  with assms(1) show ?thesis unfolding P_def by auto
qed

section \<open>Descending the tree\<close>

lemma GetInclusionProof_single:
  "GetInclusionProof (Some rt) 1 0 = Inr \<lparr>LeafIndex = 0, TreeSize = 1, ProofNonce = Nonce rt, Proof = []\<rparr>"
  by (simp add: GetInclusionProof.simps)

lemma GetInclusionProof_left:
  assumes "\<not> n \<le> m" "n \<noteq> 1" "m < flp2 n" "Right rt = Some right"
    and "GetInclusionProof (Left rt) (flp2 n) m = Inr ip"
  shows "GetInclusionProof (Some rt) n m
         = Inr \<lparr>LeafIndex = m, TreeSize = n, ProofNonce = ProofNonce ip, Proof = Proof ip @ [Hash right]\<rparr>"
  using assms by (subst GetInclusionProof.simps) (simp add: Let_def)

lemma GetInclusionProof_right:
  assumes "\<not> n \<le> m" "n \<noteq> 1" "\<not> m < flp2 n" "Left rt = Some left"
    and "GetInclusionProof (Right rt) (n - flp2 n) (m - flp2 n) = Inr ip"
  shows "GetInclusionProof (Some rt) n m
         = Inr \<lparr>LeafIndex = m, TreeSize = n, ProofNonce = ProofNonce ip, Proof = Proof ip @ [Hash left]\<rparr>"
  using assms by (subst GetInclusionProof.simps) (simp add: Let_def)

lemma GetLeaf_single: "GetLeaf root 1 0 = Inr root"
  by (simp add: GetLeaf.simps)

lemma GetLeaf_left:
  assumes "\<not> n \<le> m" "n \<noteq> 1" "m < flp2 n" "Right rt = Some right"
  shows "GetLeaf (Some rt) n m = GetLeaf (Left rt) (flp2 n) m"
  using assms by (subst GetLeaf.simps) (simp add: Let_def)

lemma GetLeaf_right:
  assumes "\<not> n \<le> m" "n \<noteq> 1" "\<not> m < flp2 n" "Left rt = Some left"
  shows "GetLeaf (Some rt) n m = GetLeaf (Right rt) (n - flp2 n) (m - flp2 n)"
  using assms by (subst GetLeaf.simps) (simp add: Let_def)

text \<open>The word-level facts of one descent step, for a slice of \<open>N\<close> leaves split at \<open>k\<close>.\<close>

lemma split_words:
  fixes N k m :: nat
  assumes N: "2 \<le> N" "N < 2 ^ 64" and k: "unat (flp2 (of_nat N)) = k" "k < N" and m: "m < N"
  shows "\<not> (of_nat N :: 64 word) \<le> of_nat m"
    and "(of_nat N :: 64 word) \<noteq> 1"
    and "((of_nat m :: 64 word) < flp2 (of_nat N)) = (m < k)"
    and "(of_nat k :: 64 word) = flp2 (of_nat N)"
    and "(of_nat (N - k) :: 64 word) = of_nat N - flp2 (of_nat N)"
    and "k \<le> m \<Longrightarrow> (of_nat (m - k) :: 64 word) = of_nat m - flp2 (of_nat N)"
proof -
  have uN: "unat (of_nat N :: 64 word) = N" using N by (simp add: unat_of_nat64)
  have um: "unat (of_nat m :: 64 word) = m" using N m by (simp add: unat_of_nat64)
  show "\<not> (of_nat N :: 64 word) \<le> of_nat m"
    using m by (simp add: word_le_nat_alt uN um)
  show "(of_nat N :: 64 word) \<noteq> 1"
  proof
    assume "(of_nat N :: 64 word) = 1"
    then have "unat (of_nat N :: 64 word) = 1" by simp
    with uN N(1) show False by simp
  qed
  show "((of_nat m :: 64 word) < flp2 (of_nat N)) = (m < k)"
    by (simp only: word_less_nat_alt um k)
  show kw: "(of_nat k :: 64 word) = flp2 (of_nat N)"
    using k(1) by (metis of_nat_unat ucast_id)
  show "(of_nat (N - k) :: 64 word) = of_nat N - flp2 (of_nat N)"
    using k(2) by (simp add: kw [symmetric])
  show "k \<le> m \<Longrightarrow> (of_nat (m - k) :: 64 word) = of_nat m - flp2 (of_nat N)"
    by (simp add: kw [symmetric])
qed

lemma generated_proof:
  assumes "length leaves < 2 ^ 64" "leaves \<noteq> []"
  shows "\<exists>t. CreateTree H leaves = Some t \<and>
           (\<forall>m<length leaves. \<exists>ip.
              GetInclusionProof (Some t) (of_nat (length leaves)) (of_nat m) = Inr ip
              \<and> LeafIndex ip = of_nat m \<and> TreeSize ip = of_nat (length leaves)
              \<and> ProofNonce ip = Nonce (leaves ! m)
              \<and> audit_ok H (length leaves) m (Hash (leaves ! m)) (Hash t) (Proof ip))"
  using assms
proof (induction rule: CreateTree_induct)
  case (single x)
  show ?case using audit_ok_single [of H "Hash x"] by (simp add: GetInclusionProof_single)
next
  case (split leaves k e l r)
  let ?N = "length leaves"
  let ?n = "of_nat ?N :: 64 word"
  let ?t = "Node (H ([0x01] @ Hash l @ Hash r)) [] (Some l) (Some r) None"
  have lenl: "length (take k leaves) = k" and lenr: "length (drop k leaves) = ?N - k"
    using split(5) by simp_all
  show ?case
  proof (intro allI impI)
    fix m assume m: "m < ?N"
    note w = split_words [OF split(1,2,3,5) m]
    show "\<exists>ip. GetInclusionProof (Some ?t) ?n (of_nat m) = Inr ip
            \<and> LeafIndex ip = of_nat m \<and> TreeSize ip = ?n \<and> ProofNonce ip = Nonce (leaves ! m)
            \<and> audit_ok H ?N m (Hash (leaves ! m)) (Hash ?t) (Proof ip)"
    proof (cases "m < k")
      case True
      have nth: "take k leaves ! m = leaves ! m" using True by simp
      have "m < length (take k leaves)" using True lenl by simp
      from split(9) [rule_format, OF this] obtain ip where
        "GetInclusionProof (Some l) (of_nat (length (take k leaves))) (of_nat m) = Inr ip"
        "ProofNonce ip = Nonce (take k leaves ! m)"
        "audit_ok H (length (take k leaves)) m (Hash (take k leaves ! m)) (Hash l) (Proof ip)"
        by blast
      then have ip:
        "GetInclusionProof (Some l) (of_nat k) (of_nat m) = Inr ip"
        "ProofNonce ip = Nonce (leaves ! m)"
        "audit_ok H k m (Hash (leaves ! m)) (Hash l) (Proof ip)"
        by (simp_all only: lenl nth)
      have g: "GetInclusionProof (Left ?t) (flp2 ?n) (of_nat m) = Inr ip"
        using ip(1) by (simp add: w(4))
      have "GetInclusionProof (Some ?t) ?n (of_nat m)
            = Inr \<lparr>LeafIndex = of_nat m, TreeSize = ?n, ProofNonce = ProofNonce ip,
                   Proof = Proof ip @ [Hash r]\<rparr>"
        using w(1,2) _ _ g by (rule GetInclusionProof_left) (simp_all add: w(3) True)
      moreover have "audit_ok H ?N m (Hash (leaves ! m)) (H ([0x01] @ Hash l @ Hash r)) (Proof ip @ [Hash r])"
        using split(4,5,6) True ip(3) by (rule audit_ok_left)
      ultimately show ?thesis using ip(2) by simp
    next
      case False
      then have km: "k \<le> m" by simp
      then have mk: "m - k < length (drop k leaves)" using m lenr by simp
      have nth: "drop k leaves ! (m - k) = leaves ! m" using km m by simp
      from split(10) [rule_format, OF mk] obtain ip where
        "GetInclusionProof (Some r) (of_nat (length (drop k leaves))) (of_nat (m - k)) = Inr ip"
        "ProofNonce ip = Nonce (drop k leaves ! (m - k))"
        "audit_ok H (length (drop k leaves)) (m - k) (Hash (drop k leaves ! (m - k))) (Hash r) (Proof ip)"
        by blast
      then have ip:
        "GetInclusionProof (Some r) (of_nat (?N - k)) (of_nat (m - k)) = Inr ip"
        "ProofNonce ip = Nonce (leaves ! m)"
        "audit_ok H (?N - k) (m - k) (Hash (leaves ! m)) (Hash r) (Proof ip)"
        by (simp_all only: lenr nth)
      have g: "GetInclusionProof (Right ?t) (?n - flp2 ?n) (of_nat m - flp2 ?n) = Inr ip"
        using ip(1) by (simp add: w(5) w(6) [OF km])
      have "GetInclusionProof (Some ?t) ?n (of_nat m)
            = Inr \<lparr>LeafIndex = of_nat m, TreeSize = ?n, ProofNonce = ProofNonce ip,
                   Proof = Proof ip @ [Hash l]\<rparr>"
        using w(1,2) _ _ g by (rule GetInclusionProof_right) (simp_all add: w(3) False)
      moreover have "audit_ok H ?N m (Hash (leaves ! m)) (H ([0x01] @ Hash l @ Hash r)) (Proof ip @ [Hash l])"
        using split(4,5,6) km m ip(3) by (rule audit_ok_right)
      ultimately show ?thesis using ip(2) by simp
    qed
  qed
qed

lemma located_leaf:
  assumes "length leaves < 2 ^ 64" "leaves \<noteq> []"
  shows "\<exists>t. CreateTree H leaves = Some t \<and>
           (\<forall>m<length leaves. GetLeaf (Some t) (of_nat (length leaves)) (of_nat m) = Inr (Some (leaves ! m)))"
  using assms
proof (induction rule: CreateTree_induct)
  case (single x)
  show ?case by (simp add: GetLeaf_single)
next
  case (split leaves k e l r)
  let ?N = "length leaves"
  let ?n = "of_nat ?N :: 64 word"
  let ?t = "Node (H ([0x01] @ Hash l @ Hash r)) [] (Some l) (Some r) None"
  have lenl: "length (take k leaves) = k" and lenr: "length (drop k leaves) = ?N - k"
    using split(5) by simp_all
  show ?case
  proof (intro allI impI)
    fix m assume m: "m < ?N"
    note w = split_words [OF split(1,2,3,5) m]
    show "GetLeaf (Some ?t) ?n (of_nat m) = Inr (Some (leaves ! m))"
    proof (cases "m < k")
      case True
      have nth: "take k leaves ! m = leaves ! m" using True by simp
      have "m < length (take k leaves)" using True lenl by simp
      from split(9) [rule_format, OF this]
      have "GetLeaf (Some l) (of_nat k) (of_nat m) = Inr (Some (leaves ! m))"
        by (simp only: lenl nth)
      moreover have "GetLeaf (Some ?t) ?n (of_nat m) = GetLeaf (Left ?t) (flp2 ?n) (of_nat m)"
        using w(1,2) by (rule GetLeaf_left) (simp_all add: w(3) True)
      ultimately show ?thesis by (simp add: w(4))
    next
      case False
      then have km: "k \<le> m" by simp
      then have mk: "m - k < length (drop k leaves)" using m lenr by simp
      have nth: "drop k leaves ! (m - k) = leaves ! m" using km m by simp
      from split(10) [rule_format, OF mk]
      have "GetLeaf (Some r) (of_nat (?N - k)) (of_nat (m - k)) = Inr (Some (leaves ! m))"
        by (simp only: lenr nth)
      moreover have "GetLeaf (Some ?t) ?n (of_nat m) = GetLeaf (Right ?t) (?n - flp2 ?n) (of_nat m - flp2 ?n)"
        using w(1,2) by (rule GetLeaf_right) (simp_all add: w(3) False)
      ultimately show ?thesis by (simp add: w(5) w(6) [OF km])
    qed
  qed
qed

text \<open>A leaf made by \<open>CreateLeaf\<close> carries the \<open>HashLeaf\<close> digest of its content and nonce.\<close>

lemma CreateLeaf_hash:
  assumes "CreateLeaf H rnd name (Inr content) nonce = Inr leaf"
  shows "HashLeaf H (Inr content) (Nonce leaf) = Inr (Hash leaf)"
    and "Left leaf = None" and "Right leaf = None" and "Name leaf = name"
  using assms
  by (auto simp: CreateLeaf_def HashLeaf_def split: option.splits sum.splits)

section \<open>The claims\<close>

lemma calc_from_fold:
  assumes h: "HashLeaf H (Inr content) (ProofNonce ip) = Inr lh"
    and lt: "LeafIndex ip < TreeSize ip"
    and f: "spec_fold H (unat (LeafIndex ip), unat (TreeSize ip) - 1, lh) (Proof ip) = Inr (0, 0, root)"
  shows "CalcInclusionProof H ip (Inr content) = Inr root"
proof -
  from lt have "TreeSize ip \<noteq> 0" by auto
  then have u: "unat (TreeSize ip - 1) = unat (TreeSize ip) - 1" by (rule unat_minus_one)
  have "map_sum kind_of (\<lambda>(fn, sn, r). (unat fn, unat sn, r))
          (proof_loop H (LeafIndex ip, TreeSize ip - 1, lh) (Proof ip)) = Inr (0, 0, root)"
    by (simp only: proof_loop_refines u f)
  then obtain fn sn where
    "proof_loop H (LeafIndex ip, TreeSize ip - 1, lh) (Proof ip) = Inr (fn, sn, root)" "unat sn = 0"
    by (cases "proof_loop H (LeafIndex ip, TreeSize ip - 1, lh) (Proof ip)") auto
  then show ?thesis using h lt by (simp add: CalcInclusionProof_def unat_eq_zero)
qed

text \<open>
  C1: for every non-empty list of leaves (of a length a slice can have) and every index
  \<open>m\<close> below its length, where the hash of leaf \<open>m\<close> is \<open>HashLeaf\<close> of the content
  with the leaf's nonce: \<open>CreateTree\<close> returns a tree, \<open>GetInclusionProof\<close> on it
  with the number of leaves and \<open>m\<close> returns a proof, and \<open>CalcInclusionProof\<close> of that
  proof and the content succeeds with the hash of the root.
\<close>

theorem round_trip:
  assumes "leaves \<noteq> []" "length leaves < 2 ^ 64" "m < length leaves"
    and "HashLeaf H (Inr content) (Nonce (leaves ! m)) = Inr (Hash (leaves ! m))"
  shows "\<exists>t ip. CreateTree H leaves = Some t
           \<and> GetInclusionProof (Some t) (of_nat (length leaves)) (of_nat m) = Inr ip
           \<and> CalcInclusionProof H ip (Inr content) = Inr (Hash t)"
proof -
  let ?N = "length leaves"
  from generated_proof [OF assms(2,1), of H] assms(3) obtain t ip where
    t: "CreateTree H leaves = Some t"
    and ip: "GetInclusionProof (Some t) (of_nat ?N) (of_nat m) = Inr ip"
      "LeafIndex ip = of_nat m" "TreeSize ip = of_nat ?N" "ProofNonce ip = Nonce (leaves ! m)"
    and ok: "audit_ok H ?N m (Hash (leaves ! m)) (Hash t) (Proof ip)"
    by blast
  have uN: "unat (of_nat ?N :: 64 word) = ?N" using assms(2) by (rule unat_of_nat64)
  have um: "unat (of_nat m :: 64 word) = m" using assms(2,3) by (intro unat_of_nat64) simp
  have "?N \<le> 2 ^ ?N" by (rule less_imp_le) (rule less_exp)
  with ok obtain d where
    "spec_fold H (0 * 2 ^ ?N + m, 0 * 2 ^ ?N + ?N - 1, Hash (leaves ! m)) (Proof ip)
       = Inr (0 * 2 ^ d, 0 * 2 ^ d, Hash t)"
    unfolding audit_ok_def by blast
  then have "spec_fold H (unat (LeafIndex ip), unat (TreeSize ip) - 1, Hash (leaves ! m)) (Proof ip)
       = Inr (0, 0, Hash t)"
    by (simp add: ip uN um)
  moreover have "LeafIndex ip < TreeSize ip"
    using assms(3) by (simp add: ip word_less_nat_alt uN um)
  moreover have "HashLeaf H (Inr content) (ProofNonce ip) = Inr (Hash (leaves ! m))"
    using assms(4) by (simp add: ip)
  ultimately have "CalcInclusionProof H ip (Inr content) = Inr (Hash t)"
    by (intro calc_from_fold)
  with t ip(1) show ?thesis by blast
qed

theorem round_trip_witness:
  "\<exists>t ip. CreateTree toy_hash example_leaves = Some t
     \<and> GetInclusionProof (Some t) (of_nat (length example_leaves)) (of_nat 2) = Inr ip
     \<and> CalcInclusionProof toy_hash ip (Inr [30, 31, 32]) = Inr (Hash t)"
proof (rule round_trip)
  show "example_leaves \<noteq> []" by (simp add: example_leaves_def)
  show "length example_leaves < 2 ^ 64" by (simp add: example_leaves_def)
  show "2 < length example_leaves" by (simp add: example_leaves_def)
  show "HashLeaf toy_hash (Inr [30, 31, 32]) (Nonce (example_leaves ! 2)) = Inr (Hash (example_leaves ! 2))"
    by (simp add: example_leaves_def leaf_c_def HashLeaf_def)
qed

text \<open>
  C2: \<open>CalcInclusionProof\<close> on 64-bit counters computes exactly the fold the
  specification describes on natural numbers (\<open>spec_verify_proof\<close>): start at
  \<open>fn = leaf_index\<close>, \<open>sn = tree_size - 1\<close>, \<open>r\<close> the leaf hash; for each sibling fail
  with \<open>ProofSizeMismatch\<close> when \<open>sn = 0\<close>, combine on the left and shift while \<open>fn\<close> is
  even and not zero when \<open>fn\<close> is odd or equal to \<open>sn\<close>, combine on the right
  otherwise, then halve both; at the end fail when \<open>sn \<noteq> 0\<close>. The same result and the
  same kind of error, for every proof and every reader.
\<close>

theorem verifier_refines_spec:
  "map_sum kind_of id (CalcInclusionProof H prf rd)
   = spec_verify_proof H (unat (LeafIndex prf)) (unat (TreeSize prf))
       (slice_bytes (ProofNonce prf)) (Proof prf) rd"
proof (cases rd)
  case (Inl msg)
  then show ?thesis by (simp add: CalcInclusionProof_def HashLeaf_def spec_verify_proof_def)
next
  case (Inr content)
  let ?lh = "H ([0x00] @ slice_bytes (ProofNonce prf) @ content)"
  show ?thesis
  proof (cases "TreeSize prf \<le> LeafIndex prf")
    case True
    then have "unat (TreeSize prf) \<le> unat (LeafIndex prf)" by (simp add: word_le_nat_alt)
    with True Inr show ?thesis
      by (simp add: CalcInclusionProof_def HashLeaf_def spec_verify_proof_def)
  next
    case False
    then have nle: "\<not> unat (TreeSize prf) \<le> unat (LeafIndex prf)" by (simp add: word_le_nat_alt)
    from False have "TreeSize prf \<noteq> 0" by auto
    then have u: "unat (TreeSize prf - 1) = unat (TreeSize prf) - 1" by (rule unat_minus_one)
    have r: "map_sum kind_of (\<lambda>(fn, sn, r). (unat fn, unat sn, r))
          (proof_loop H (LeafIndex prf, TreeSize prf - 1, ?lh) (Proof prf))
        = spec_fold H (unat (LeafIndex prf), unat (TreeSize prf) - 1, ?lh) (Proof prf)"
      by (simp only: proof_loop_refines u)
    show ?thesis
    proof (cases "proof_loop H (LeafIndex prf, TreeSize prf - 1, ?lh) (Proof prf)")
      case (Inl e)
      with r have "spec_fold H (unat (LeafIndex prf), unat (TreeSize prf) - 1, ?lh) (Proof prf)
                   = Inl (kind_of e)" by simp
      with Inl False nle Inr show ?thesis
        by (simp add: CalcInclusionProof_def HashLeaf_def spec_verify_proof_def)
    next
      case (Inr st)
      obtain fn sn x where st: "st = (fn, sn, x)" by (cases st)
      with r Inr have "spec_fold H (unat (LeafIndex prf), unat (TreeSize prf) - 1, ?lh) (Proof prf)
                   = Inr (unat fn, unat sn, x)" by simp
      with Inr st False nle \<open>rd = Inr content\<close> show ?thesis
        by (simp add: CalcInclusionProof_def HashLeaf_def spec_verify_proof_def unat_eq_zero)
    qed
  qed
qed

theorem verifier_refines_spec_witness:
  "map_sum kind_of id
     (CalcInclusionProof toy_hash
        \<lparr>LeafIndex = 2, TreeSize = 3, ProofNonce = Some [3], Proof = [[9, 9]]\<rparr> (Inr [30, 31, 32]))
     = Inr (toy_hash ([0x01] @ [9, 9] @ toy_hash ([0x00] @ [3] @ [30, 31, 32])))
   \<and> map_sum kind_of id
     (CalcInclusionProof toy_hash
        \<lparr>LeafIndex = 2, TreeSize = 3, ProofNonce = Some [3], Proof = [[9, 9], [8, 8]]\<rparr> (Inr [30, 31, 32]))
     = Inl ProofSizeMismatch"
  unfolding verifier_refines_spec
  by (simp add: spec_verify_proof_def spec_shift.simps)

text \<open>
  C3: \<open>CreateTree\<close> of the empty list is the node with the hash of the empty input and
  no children, name or nonce; of one leaf, that leaf; of \<open>n \<ge> 2\<close> leaves, the node
  whose children are the trees of the first \<open>k\<close> and of the remaining leaves, with
  \<open>k = flp2 n\<close> a power of two with \<open>k < n \<le> 2 * k\<close>, and whose hash is that of
  \<open>0x01\<close>, the left hash and the right hash. Both recursive calls return.
\<close>

theorem CreateTree_structure:
  "CreateTree H [] = Some (Node (H []) [] None None None)
   \<and> CreateTree H [x] = Some x
   \<and> (2 \<le> length leaves \<and> length leaves < 2 ^ 64 \<longrightarrow>
       (\<exists>k e l r. k = unat (flp2 (of_nat (length leaves)))
          \<and> k = 2 ^ e \<and> k < length leaves \<and> length leaves \<le> 2 * k
          \<and> CreateTree H (take k leaves) = Some l
          \<and> CreateTree H (drop k leaves) = Some r
          \<and> CreateTree H leaves
              = Some (Node (H ([0x01] @ Hash l @ Hash r)) [] (Some l) (Some r) None)))"
proof (intro conjI impI)
  show "CreateTree H [] = Some (Node (H []) [] None None None)" by (rule CreateTree_Nil)
  show "CreateTree H [x] = Some x" by (rule CreateTree_single)
next
  assume "2 \<le> length leaves \<and> length leaves < 2 ^ 64"
  then have "2 \<le> length leaves" "length leaves < 2 ^ 64" by simp_all
  then show "\<exists>k e l r. k = unat (flp2 (of_nat (length leaves)))
          \<and> k = 2 ^ e \<and> k < length leaves \<and> length leaves \<le> 2 * k
          \<and> CreateTree H (take k leaves) = Some l
          \<and> CreateTree H (drop k leaves) = Some r
          \<and> CreateTree H leaves
              = Some (Node (H ([0x01] @ Hash l @ Hash r)) [] (Some l) (Some r) None)"
    by (rule CreateTree_node)
qed

theorem CreateTree_structure_witness:
  "2 \<le> length example_leaves \<and> length example_leaves < 2 ^ 64
   \<and> (\<exists>k e l r. k = unat (flp2 (of_nat (length example_leaves)))
          \<and> k = 2 ^ e \<and> k < length example_leaves \<and> length example_leaves \<le> 2 * k
          \<and> CreateTree toy_hash (take k example_leaves) = Some l
          \<and> CreateTree toy_hash (drop k example_leaves) = Some r
          \<and> CreateTree toy_hash example_leaves
              = Some (Node (toy_hash ([0x01] @ Hash l @ Hash r)) [] (Some l) (Some r) None))"
proof -
  have h: "2 \<le> length example_leaves \<and> length example_leaves < 2 ^ 64"
    by (simp add: example_leaves_def)
  with CreateTree_structure [of toy_hash leaf_a example_leaves] show ?thesis by blast
qed

text \<open>
  C5: for every non-empty list of leaves and every index \<open>m\<close> below its length,
  \<open>GetLeaf\<close> on the tree built from the leaves, with their number and \<open>m\<close>, returns
  leaf \<open>m\<close> itself; \<open>GetInclusionProof\<close> with the same arguments carries that
  leaf's nonce.
\<close>

theorem leaf_locator:
  assumes "leaves \<noteq> []" "length leaves < 2 ^ 64" "m < length leaves"
  shows "\<exists>t. CreateTree H leaves = Some t
           \<and> GetLeaf (Some t) (of_nat (length leaves)) (of_nat m) = Inr (Some (leaves ! m))
           \<and> (\<exists>ip. GetInclusionProof (Some t) (of_nat (length leaves)) (of_nat m) = Inr ip
                 \<and> ProofNonce ip = Nonce (leaves ! m))"
proof -
  from located_leaf [OF assms(2,1), of H] assms(3) obtain t where
    t: "CreateTree H leaves = Some t"
       "GetLeaf (Some t) (of_nat (length leaves)) (of_nat m) = Inr (Some (leaves ! m))"
    by blast
  from generated_proof [OF assms(2,1), of H] assms(3) t(1) obtain ip where
    "GetInclusionProof (Some t) (of_nat (length leaves)) (of_nat m) = Inr ip"
    "ProofNonce ip = Nonce (leaves ! m)"
    by auto
  with t show ?thesis by blast
qed

theorem leaf_locator_witness:
  "\<exists>t. CreateTree toy_hash example_leaves = Some t
     \<and> GetLeaf (Some t) (of_nat (length example_leaves)) (of_nat 1) = Inr (Some (example_leaves ! 1))
     \<and> (\<exists>ip. GetInclusionProof (Some t) (of_nat (length example_leaves)) (of_nat 1) = Inr ip
           \<and> ProofNonce ip = Nonce (example_leaves ! 1))"
proof (rule leaf_locator)
  show "example_leaves \<noteq> []" by (simp add: example_leaves_def)
  show "length example_leaves < 2 ^ 64" by (simp add: example_leaves_def)
  show "1 < length example_leaves" by (simp add: example_leaves_def)
qed

text \<open>
  C6, as stated, fails for \<open>CalcInclusionProof\<close>: the leaf is hashed before the index
  is compared with the tree size, so with a reader that fails the read error is
  returned, also when \<open>leaf_index \<ge> tree_size\<close>.
\<close>

theorem index_out_of_range_counterexample:
  "TreeSize \<lparr>LeafIndex = 1, TreeSize = 1, ProofNonce = None, Proof = []\<rparr>
     \<le> LeafIndex \<lparr>LeafIndex = 1, TreeSize = 1, ProofNonce = None, Proof = []\<rparr>
   \<and> CalcInclusionProof toy_hash \<lparr>LeafIndex = 1, TreeSize = 1, ProofNonce = None, Proof = []\<rparr>
        (Inl ''unexpected EOF'') = Inl (ReadFailure ''unexpected EOF'')
   \<and> kind_of (ReadFailure ''unexpected EOF'') \<noteq> IndexOutOfRange"
  by (simp add: CalcInclusionProof_def HashLeaf_def)

text \<open>
  C6, amended: for every root (nil or not), every \<open>n\<close> and every \<open>m \<ge> n\<close>,
  \<open>GetInclusionProof\<close> and \<open>GetLeaf\<close> fail with the index error. \<open>CalcInclusionProof\<close>
  on a proof with \<open>leaf_index \<ge> tree_size\<close> fails with the index error when the reader
  delivers its content, and with the read error when the reader fails.
\<close>

theorem index_out_of_range:
  "(n \<le> m \<longrightarrow>
      GetInclusionProof root n m = Inl LeafIndexImpossible
      \<and> GetLeaf root n m = Inl LeafIndexImpossible
      \<and> kind_of LeafIndexImpossible = IndexOutOfRange)
   \<and> (TreeSize prf \<le> LeafIndex prf \<longrightarrow>
      CalcInclusionProof H prf (Inr content) = Inl InvalidLeafIndex
      \<and> kind_of InvalidLeafIndex = IndexOutOfRange
      \<and> CalcInclusionProof H prf (Inl msg) = Inl (ReadFailure msg))"
  by (simp add: GetInclusionProof.simps GetLeaf.simps CalcInclusionProof_def HashLeaf_def)

theorem index_out_of_range_witness:
  "(3 :: 64 word) \<le> 5
   \<and> GetInclusionProof (Some leaf_a) 3 5 = Inl LeafIndexImpossible
   \<and> GetLeaf (Some leaf_a) 3 5 = Inl LeafIndexImpossible
   \<and> TreeSize \<lparr>LeafIndex = 4, TreeSize = 4, ProofNonce = Some [1], Proof = []\<rparr>
       \<le> LeafIndex \<lparr>LeafIndex = 4, TreeSize = 4, ProofNonce = Some [1], Proof = []\<rparr>
   \<and> CalcInclusionProof toy_hash \<lparr>LeafIndex = 4, TreeSize = 4, ProofNonce = Some [1], Proof = []\<rparr>
        (Inr [10, 11]) = Inl InvalidLeafIndex"
proof -
  have a: "(3 :: 64 word) \<le> 5" by simp
  have b: "TreeSize \<lparr>LeafIndex = 4, TreeSize = 4, ProofNonce = Some [1], Proof = []\<rparr>
       \<le> LeafIndex \<lparr>LeafIndex = 4, TreeSize = 4, ProofNonce = Some [1], Proof = []\<rparr>" by simp
  from index_out_of_range [of 3 5 "Some leaf_a"
      "\<lparr>LeafIndex = 4, TreeSize = 4, ProofNonce = Some [1], Proof = []\<rparr>" toy_hash "[10, 11]"] a b
  show ?thesis by blast
qed

text \<open>
  C7: when the descent from \<open>root\<close> with \<open>n\<close> and \<open>m\<close> reaches a node \<open>c\<close> with a size
  \<open>n' \<ge> 2\<close> and an index \<open>m' < n'\<close>, and either \<open>m' < flp2 n'\<close> and \<open>c\<close> has no right
  child or \<open>m' \<ge> flp2 n'\<close> and \<open>c\<close> has no left child, then \<open>GetInclusionProof\<close> and
  \<open>GetLeaf\<close> fail with the error of kind \<open>TreeSizeMismatch\<close>.
\<close>

theorem tree_size_mismatch:
  assumes "descent root n m c n' m'" "2 \<le> n'" "m' < n'"
    and "(m' < flp2 n' \<and> Right c = None) \<or> (\<not> m' < flp2 n' \<and> Left c = None)"
  shows "GetInclusionProof (Some root) n m = Inl NumberOfLeavesIncorrect
         \<and> GetLeaf (Some root) n m = Inl NumberOfLeavesIncorrect
         \<and> kind_of NumberOfLeavesIncorrect = TreeSizeMismatch"
  using assms
proof (induction rule: descent.induct)
  case (here root n m)
  from here(1) have "n \<noteq> 1" by (auto simp: word_le_nat_alt)
  moreover from here(2) have "\<not> n \<le> m" by simp
  ultimately show ?case using here(3)
    by (subst GetInclusionProof.simps, subst GetLeaf.simps) (auto simp: Let_def)
next
  case (left n m root right l c n' m')
  then have "GetInclusionProof (Some l) (flp2 n) m = Inl NumberOfLeavesIncorrect"
    "GetLeaf (Some l) (flp2 n) m = Inl NumberOfLeavesIncorrect" by simp_all
  with left(1-5) show ?case
    by (subst GetInclusionProof.simps, subst GetLeaf.simps) (simp add: Let_def)
next
  case (right n m root left r c n' m')
  then have "GetInclusionProof (Some r) (n - flp2 n) (m - flp2 n) = Inl NumberOfLeavesIncorrect"
    "GetLeaf (Some r) (n - flp2 n) (m - flp2 n) = Inl NumberOfLeavesIncorrect" by simp_all
  with right(1-5) show ?case
    by (subst GetInclusionProof.simps, subst GetLeaf.simps) (simp add: Let_def)
qed

lemma flp2_4: "flp2 4 = 2" by (simp add: flp2_def)

theorem tree_size_mismatch_witness:
  "GetInclusionProof (Some (Node [7] [] (Some leaf_a) (Some leaf_b) None)) 4 0 = Inl NumberOfLeavesIncorrect
   \<and> GetLeaf (Some (Node [7] [] (Some leaf_a) (Some leaf_b) None)) 4 0 = Inl NumberOfLeavesIncorrect
   \<and> GetInclusionProof (Some (Node [7] [] (Some leaf_a) (Some leaf_b) None)) 4 3 = Inl NumberOfLeavesIncorrect
   \<and> GetLeaf (Some (Node [7] [] (Some leaf_a) (Some leaf_b) None)) 4 3 = Inl NumberOfLeavesIncorrect"
proof -
  let ?t = "Node [7] [] (Some leaf_a) (Some leaf_b) None"
  have d0: "descent ?t 4 0 leaf_a 2 0"
    by (rule descent.left [where right = leaf_b and l = leaf_a]) (simp_all add: flp2_4 descent.here)
  have c0: "((0 :: 64 word) < flp2 2 \<and> Right leaf_a = None) \<or> (\<not> (0 :: 64 word) < flp2 2 \<and> Left leaf_a = None)"
    by (simp add: flp2_2 leaf_a_def)
  have d3: "descent ?t 4 3 leaf_b 2 1"
    by (rule descent.right [where left = leaf_a and r = leaf_b]) (simp_all add: flp2_4 descent.here)
  have c3: "((1 :: 64 word) < flp2 2 \<and> Right leaf_b = None) \<or> (\<not> (1 :: 64 word) < flp2 2 \<and> Left leaf_b = None)"
    by (simp add: flp2_2 leaf_b_def)
  from tree_size_mismatch [OF d0 _ _ c0] tree_size_mismatch [OF d3 _ _ c3]
  show ?thesis by simp
qed

lemma GetInclusionProof_two_left:
  "GetInclusionProof (Some (Node h nm (Some a) (Some b) nc)) 2 0
   = Inr \<lparr>LeafIndex = 0, TreeSize = 2, ProofNonce = Nonce a, Proof = [Hash b]\<rparr>"
  by (simp add: GetInclusionProof.simps [of _ 2 0] flp2_2 GetInclusionProof_single)

text \<open>
  C8: for any three leaves \<open>a\<close>, \<open>b\<close>, \<open>c\<close> the tree splits at \<open>k = 2\<close>, its root
  hash is the hash of \<open>0x01\<close>, the hash of \<open>0x01\<close> with the hashes of \<open>a\<close> and \<open>b\<close>, and
  the hash of \<open>c\<close>; the proof for index 2 is the one hash of the left subtree, and the
  proof for index 0 has two hashes.
\<close>

theorem three_leaves:
  "\<exists>t l. CreateTree H [a, b, c] = Some t
     \<and> unat (flp2 (of_nat (length [a, b, c]))) = 2
     \<and> CreateTree H [a, b] = Some l \<and> Left t = Some l \<and> Right t = Some c
     \<and> Hash l = H ([0x01] @ Hash a @ Hash b)
     \<and> Hash t = H ([0x01] @ H ([0x01] @ Hash a @ Hash b) @ Hash c)
     \<and> (\<exists>ip. GetInclusionProof (Some t) 3 2 = Inr ip \<and> length (Proof ip) = 1 \<and> Proof ip = [Hash l])
     \<and> (\<exists>ip. GetInclusionProof (Some t) 3 0 = Inr ip \<and> length (Proof ip) = 2)"
proof -
  let ?l = "Node (H ([0x01] @ Hash a @ Hash b)) [] (Some a) (Some b) None"
  let ?t = "Node (H ([0x01] @ H ([0x01] @ Hash a @ Hash b) @ Hash c)) [] (Some ?l) (Some c) None"
  have t: "CreateTree H [a, b, c] = Some ?t" by (rule CreateTree_three)
  have l: "CreateTree H [a, b] = Some ?l" by (rule CreateTree_two)
  have k: "unat (flp2 (of_nat (length [a, b, c]))) = 2" by (simp add: flp2_3)
  have p2: "GetInclusionProof (Some ?t) 3 2
      = Inr \<lparr>LeafIndex = 2, TreeSize = 3, ProofNonce = Nonce c, Proof = [Hash ?l]\<rparr>"
    by (simp add: GetInclusionProof.simps [of _ 3 2] flp2_3 GetInclusionProof_single)
  have p0: "GetInclusionProof (Some ?t) 3 0
      = Inr \<lparr>LeafIndex = 0, TreeSize = 3, ProofNonce = Nonce a, Proof = [Hash b, Hash c]\<rparr>"
    by (simp add: GetInclusionProof.simps [of _ 3 0] flp2_3 GetInclusionProof_two_left)
  have "length [Hash ?l] = 1" "length [Hash b, Hash c] = 2" by simp_all
  with t l k p2 p0 show ?thesis
    by (intro exI [of _ ?t] exI [of _ ?l] conjI
          exI [of _ "\<lparr>LeafIndex = 2, TreeSize = 3, ProofNonce = Nonce c, Proof = [Hash ?l]\<rparr>"]
          exI [of _ "\<lparr>LeafIndex = 0, TreeSize = 3, ProofNonce = Nonce a, Proof = [Hash b, Hash c]\<rparr>"])
       simp_all
qed

theorem three_leaves_witness:
  "\<exists>t l. CreateTree toy_hash [leaf_a, leaf_b, leaf_c] = Some t
     \<and> Left t = Some l \<and> Right t = Some leaf_c
     \<and> Hash t = toy_hash ([0x01] @ toy_hash ([0x01] @ Hash leaf_a @ Hash leaf_b) @ Hash leaf_c)
     \<and> (\<exists>ip. GetInclusionProof (Some t) 3 2 = Inr ip \<and> Proof ip = [Hash l])
     \<and> (\<exists>ip. GetInclusionProof (Some t) 3 0 = Inr ip \<and> length (Proof ip) = 2)"
  using three_leaves [of toy_hash leaf_a leaf_b leaf_c] by blast

text \<open>
  C9: with the claimed size 1 and index 0, \<open>GetInclusionProof\<close> returns, for every
  node, the proof with index 0, size 1, the node's nonce and an empty path; on an
  internal node the nonce is nil. No size mismatch is reported.
\<close>

theorem size_one_unchecked:
  "GetInclusionProof (Some root) 1 0
     = Inr \<lparr>LeafIndex = 0, TreeSize = 1, ProofNonce = Nonce root, Proof = []\<rparr>
   \<and> GetInclusionProof (Some root) 1 0 \<noteq> Inl NumberOfLeavesIncorrect
   \<and> (2 \<le> length leaves \<and> length leaves < 2 ^ 64 \<longrightarrow>
        (\<exists>t. CreateTree H leaves = Some t \<and> Left t \<noteq> None \<and> Right t \<noteq> None
           \<and> GetInclusionProof (Some t) 1 0
               = Inr \<lparr>LeafIndex = 0, TreeSize = 1, ProofNonce = None, Proof = []\<rparr>))"
proof (intro conjI impI)
  show "GetInclusionProof (Some root) 1 0
     = Inr \<lparr>LeafIndex = 0, TreeSize = 1, ProofNonce = Nonce root, Proof = []\<rparr>"
    by (rule GetInclusionProof_single)
  then show "GetInclusionProof (Some root) 1 0 \<noteq> Inl NumberOfLeavesIncorrect" by simp
next
  assume "2 \<le> length leaves \<and> length leaves < 2 ^ 64"
  then have "2 \<le> length leaves" "length leaves < 2 ^ 64" by simp_all
  from CreateTree_node [OF this, of H] obtain l r where
    "CreateTree H leaves = Some (Node (H ([0x01] @ Hash l @ Hash r)) [] (Some l) (Some r) None)"
    by blast
  then show "\<exists>t. CreateTree H leaves = Some t \<and> Left t \<noteq> None \<and> Right t \<noteq> None
           \<and> GetInclusionProof (Some t) 1 0
               = Inr \<lparr>LeafIndex = 0, TreeSize = 1, ProofNonce = None, Proof = []\<rparr>"
    by (simp add: GetInclusionProof_single)
qed

theorem size_one_unchecked_witness:
  "2 \<le> length example_leaves \<and> length example_leaves < 2 ^ 64
   \<and> (\<exists>t. CreateTree toy_hash example_leaves = Some t \<and> Left t \<noteq> None \<and> Right t \<noteq> None
        \<and> GetInclusionProof (Some t) 1 0
            = Inr \<lparr>LeafIndex = 0, TreeSize = 1, ProofNonce = None, Proof = []\<rparr>)
   \<and> GetInclusionProof (Some leaf_a) 1 0
       = Inr \<lparr>LeafIndex = 0, TreeSize = 1, ProofNonce = Some [1], Proof = []\<rparr>"
proof -
  have h: "2 \<le> length example_leaves \<and> length example_leaves < 2 ^ 64"
    by (simp add: example_leaves_def)
  have n: "Nonce leaf_a = Some [1]" by (simp add: leaf_a_def)
  from size_one_unchecked [of leaf_a example_leaves toy_hash] h n show ?thesis by simp
qed

lemma well_formed_children:
  "well_formed rt \<Longrightarrow>
   (Left rt = None \<and> Right rt = None)
   \<or> (\<exists>l r. Left rt = Some l \<and> Right rt = Some r \<and> well_formed l \<and> well_formed r)"
  by (cases rt) (auto split: option.splits)

lemma GetInclusionProof_no_nil:
  "root = Some rt \<Longrightarrow> well_formed rt \<Longrightarrow> GetInclusionProof root n m \<noteq> Inl NilDereference"
proof (induction root n m arbitrary: rt rule: GetInclusionProof.induct)
  case (1 root n m)
  from well_formed_children [OF "1.prems"(2)] show ?case
  proof
    assume "Left rt = None \<and> Right rt = None"
    then show ?thesis using "1.prems"(1)
      by (subst GetInclusionProof.simps) (simp add: Let_def)
  next
    assume "\<exists>l r. Left rt = Some l \<and> Right rt = Some r \<and> well_formed l \<and> well_formed r"
    then obtain l r where c: "Left rt = Some l" "Right rt = Some r" "well_formed l" "well_formed r"
      by blast
    show ?thesis
    proof (cases "n \<le> m \<or> n = 1")
      case True
      then show ?thesis using "1.prems"(1)
        by (subst GetInclusionProof.simps) auto
    next
      case False
      then have g: "\<not> n \<le> m" "n \<noteq> 1" by simp_all
      show ?thesis
      proof (cases "m < flp2 n")
        case True
        from "1.IH"(1) [OF g refl True "1.prems"(1) c(2) c(1) c(3)]
        have "GetInclusionProof (Left rt) (flp2 n) m \<noteq> Inl NilDereference" .
        then show ?thesis using g True c "1.prems"(1)
          by (subst GetInclusionProof.simps) (auto simp: Let_def split: sum.splits)
      next
        case False
        from "1.IH"(2) [OF g refl False "1.prems"(1) c(1) c(2) c(4)]
        have "GetInclusionProof (Right rt) (n - flp2 n) (m - flp2 n) \<noteq> Inl NilDereference" .
        then show ?thesis using g False c "1.prems"(1)
          by (subst GetInclusionProof.simps) (auto simp: Let_def split: sum.splits)
      qed
    qed
  qed
qed

lemma GetLeaf_no_nil:
  "root = Some rt \<Longrightarrow> well_formed rt \<Longrightarrow> GetLeaf root n m \<noteq> Inl NilDereference"
proof (induction root n m arbitrary: rt rule: GetLeaf.induct)
  case (1 root n m)
  from well_formed_children [OF "1.prems"(2)] show ?case
  proof
    assume "Left rt = None \<and> Right rt = None"
    then show ?thesis using "1.prems"(1)
      by (subst GetLeaf.simps) (simp add: Let_def)
  next
    assume "\<exists>l r. Left rt = Some l \<and> Right rt = Some r \<and> well_formed l \<and> well_formed r"
    then obtain l r where c: "Left rt = Some l" "Right rt = Some r" "well_formed l" "well_formed r"
      by blast
    show ?thesis
    proof (cases "n \<le> m \<or> n = 1")
      case True
      then show ?thesis using "1.prems"(1)
        by (subst GetLeaf.simps) auto
    next
      case False
      then have g: "\<not> n \<le> m" "n \<noteq> 1" by simp_all
      show ?thesis
      proof (cases "m < flp2 n")
        case True
        from "1.IH"(1) [OF g refl True "1.prems"(1) c(2) c(1) c(3)]
        have "GetLeaf (Left rt) (flp2 n) m \<noteq> Inl NilDereference" .
        then show ?thesis using g True c "1.prems"(1)
          by (subst GetLeaf.simps) (auto simp: Let_def split: sum.splits)
      next
        case False
        from "1.IH"(2) [OF g refl False "1.prems"(1) c(1) c(2) c(4)]
        have "GetLeaf (Right rt) (n - flp2 n) (m - flp2 n) \<noteq> Inl NilDereference" .
        then show ?thesis using g False c "1.prems"(1)
          by (subst GetLeaf.simps) (auto simp: Let_def split: sum.splits)
      qed
    qed
  qed
qed

lemma GetLeaf_not_nil:
  "root = Some rt \<Longrightarrow> well_formed rt \<Longrightarrow> GetLeaf root n m \<noteq> Inr None"
proof (induction root n m arbitrary: rt rule: GetLeaf.induct)
  case (1 root n m)
  show ?case
  proof (cases "n \<le> m \<or> n = 1")
    case True
    then show ?thesis using "1.prems"(1)
      by (subst GetLeaf.simps) auto
  next
    case False
    then have g: "\<not> n \<le> m" "n \<noteq> 1" by simp_all
    from well_formed_children [OF "1.prems"(2)] show ?thesis
    proof
      assume "Left rt = None \<and> Right rt = None"
      then show ?thesis using g "1.prems"(1)
        by (subst GetLeaf.simps) (simp add: Let_def)
    next
      assume "\<exists>l r. Left rt = Some l \<and> Right rt = Some r \<and> well_formed l \<and> well_formed r"
      then obtain l r where c: "Left rt = Some l" "Right rt = Some r" "well_formed l" "well_formed r"
        by blast
      show ?thesis
      proof (cases "m < flp2 n")
        case True
        from "1.IH"(1) [OF g refl True "1.prems"(1) c(2) c(1) c(3)]
        have "GetLeaf (Left rt) (flp2 n) m \<noteq> Inr None" .
        then show ?thesis using g True c "1.prems"(1)
          by (subst GetLeaf.simps) (simp add: Let_def)
      next
        case False
        from "1.IH"(2) [OF g refl False "1.prems"(1) c(1) c(2) c(4)]
        have "GetLeaf (Right rt) (n - flp2 n) (m - flp2 n) \<noteq> Inr None" .
        then show ?thesis using g False c "1.prems"(1)
          by (subst GetLeaf.simps) (simp add: Let_def)
      qed
    qed
  qed
qed

lemma CreateTree_well_formed:
  assumes "length leaves < 2 ^ 64" "\<forall>x\<in>set leaves. Left x = None \<and> Right x = None"
  shows "\<exists>t. CreateTree H leaves = Some t \<and> well_formed t"
proof (cases "leaves = []")
  case True
  then show ?thesis by (simp add: CreateTree_Nil)
next
  case False
  with assms(1) have "\<exists>t. CreateTree H leaves = Some t
      \<and> ((\<forall>x\<in>set leaves. Left x = None \<and> Right x = None) \<longrightarrow> well_formed t)"
  proof (induction rule: CreateTree_induct)
    case (single x)
    show ?case by (cases x) simp
  next
    case (split leaves k e l r)
    have "set (take k leaves) \<subseteq> set leaves" "set (drop k leaves) \<subseteq> set leaves"
      by (rule set_take_subset, rule set_drop_subset)
    with split(9,10) show ?case by auto
  qed
  with assms(2) show ?thesis by blast
qed

text \<open>
  Without the precondition an absent child is entered: on a node with a right child
  only, the guard of the left branch passes; \<open>GetInclusionProof\<close> then reads through
  the nil left child, and \<open>GetLeaf\<close> returns it.
\<close>

lemma half_populated_node_panics:
  "GetInclusionProof (Some (Node h nm None (Some r) nc)) 2 0 = Inl NilDereference"
  by (simp add: GetInclusionProof.simps [of _ 2 0] GetInclusionProof.simps [of None] flp2_2)

lemma half_populated_node_returns_nil:
  "GetLeaf (Some (Node h nm None (Some r) nc)) 2 0 = Inr None"
  by (simp add: GetLeaf.simps [of _ 2 0] GetLeaf_single flp2_2)

text \<open>
  C10: on a well-formed tree \<open>GetInclusionProof\<close> and \<open>GetLeaf\<close> never enter an absent
  child, for any \<open>n\<close> and \<open>m\<close>: neither reads through a nil pointer, and \<open>GetLeaf\<close>
  never returns one, so whenever a needed subtree is missing the call has failed with
  an error before; and the tree \<open>CreateTree\<close> builds from nodes without children is
  well formed.
\<close>

theorem descent_total_on_well_formed:
  "(well_formed root \<longrightarrow>
      GetInclusionProof (Some root) n m \<noteq> Inl NilDereference
      \<and> GetLeaf (Some root) n m \<noteq> Inl NilDereference
      \<and> GetLeaf (Some root) n m \<noteq> Inr None)
   \<and> (length leaves < 2 ^ 64 \<and> (\<forall>x\<in>set leaves. Left x = None \<and> Right x = None) \<longrightarrow>
      (\<exists>t. CreateTree H leaves = Some t \<and> well_formed t
         \<and> GetInclusionProof (Some t) n m \<noteq> Inl NilDereference
         \<and> GetLeaf (Some t) n m \<noteq> Inl NilDereference
         \<and> GetLeaf (Some t) n m \<noteq> Inr None))"
proof (intro conjI impI)
  assume w: "well_formed root"
  show "GetInclusionProof (Some root) n m \<noteq> Inl NilDereference"
    using refl w by (rule GetInclusionProof_no_nil)
  show "GetLeaf (Some root) n m \<noteq> Inl NilDereference"
    using refl w by (rule GetLeaf_no_nil)
  show "GetLeaf (Some root) n m \<noteq> Inr None"
    using refl w by (rule GetLeaf_not_nil)
next
  assume "length leaves < 2 ^ 64 \<and> (\<forall>x\<in>set leaves. Left x = None \<and> Right x = None)"
  then have "length leaves < 2 ^ 64" "\<forall>x\<in>set leaves. Left x = None \<and> Right x = None"
    by simp_all
  from CreateTree_well_formed [OF this, of H] obtain t where
    t: "CreateTree H leaves = Some t" "well_formed t" by blast
  have "GetInclusionProof (Some t) n m \<noteq> Inl NilDereference"
    using refl t(2) by (rule GetInclusionProof_no_nil)
  moreover have "GetLeaf (Some t) n m \<noteq> Inl NilDereference"
    using refl t(2) by (rule GetLeaf_no_nil)
  moreover have "GetLeaf (Some t) n m \<noteq> Inr None"
    using refl t(2) by (rule GetLeaf_not_nil)
  ultimately show "\<exists>t. CreateTree H leaves = Some t \<and> well_formed t
         \<and> GetInclusionProof (Some t) n m \<noteq> Inl NilDereference
         \<and> GetLeaf (Some t) n m \<noteq> Inl NilDereference
         \<and> GetLeaf (Some t) n m \<noteq> Inr None"
    using t by blast
qed

theorem descent_total_on_well_formed_witness:
  "well_formed leaf_a
   \<and> GetInclusionProof (Some leaf_a) 2 0 \<noteq> Inl NilDereference
   \<and> GetLeaf (Some leaf_a) 2 0 \<noteq> Inl NilDereference
   \<and> GetLeaf (Some leaf_a) 2 0 \<noteq> Inr None
   \<and> length example_leaves < 2 ^ 64
   \<and> (\<exists>t. CreateTree toy_hash example_leaves = Some t \<and> well_formed t
         \<and> GetInclusionProof (Some t) 5 4 \<noteq> Inl NilDereference
         \<and> GetLeaf (Some t) 5 4 \<noteq> Inl NilDereference
         \<and> GetLeaf (Some t) 5 4 \<noteq> Inr None)"
proof -
  have a: "well_formed leaf_a" by (simp add: leaf_a_def)
  have b: "length example_leaves < 2 ^ 64 \<and> (\<forall>x\<in>set example_leaves. Left x = None \<and> Right x = None)"
    by (simp add: example_leaves_def leaf_a_def leaf_b_def leaf_c_def)
  from descent_total_on_well_formed [of leaf_a 2 0 example_leaves toy_hash]
    descent_total_on_well_formed [of leaf_a 5 4 example_leaves toy_hash] a b
  show ?thesis by blast
qed

end
